theory Spec2Isabelle
  imports Main "HOL-Library.Word"
begin

section \<open>Byte-layout addressing (package profile)\<close>

text \<open>
  The format constants of the profile file. Go's \<open>int\<close> is modelled as a 64-bit word
  (its width on the 64-bit targets) wherever the address arithmetic is concerned, so that
  \<open>+\<close> and \<open>*\<close> wrap as they do in the program; \<open>int64\<close> conversions of such a value
  are then the identity.
\<close>

type_synonym go_int = "64 word"

definition FILE_HEADER_OFFSET :: go_int where "FILE_HEADER_OFFSET = 0"
definition FILE_HEADER_SIZE :: go_int where "FILE_HEADER_SIZE = 36"
definition FLOOR_HEADER_SIZE :: go_int where "FLOOR_HEADER_SIZE = 40"
definition FLOOR_TAB_SIZE :: go_int where "FLOOR_TAB_SIZE = 46252"
definition INSTRUCTIONS_SIZE :: go_int where "INSTRUCTIONS_SIZE = 4100"

definition numFloors :: int where "numFloors = 36"

text \<open>
  The floor numbers and the on-disk indices are small; the floor mapping is modelled on
  unbounded integers (no operation on them can overflow for any floor the game has).
\<close>

definition missingFloors :: "int list" where
  "missingFloors = [5, 15, 18, 27, 33, -1]"

definition floorToIdx_entries :: "(int \<times> int) list" where
  "floorToIdx_entries = [(36, 39), (37, 36), (38, 40), (39, 37), (40, 41), (41, 38)]"

definition floorToIdx :: "int \<rightharpoonup> int" where
  "floorToIdx = map_of floorToIdx_entries"

text \<open>\<open>init()\<close>: for every key of \<open>floorToIdx\<close>, store \<open>idxToFloor[floorToIdx[key]] = key\<close>.\<close>

definition idxToFloor :: "int \<rightharpoonup> int" where
  "idxToFloor = fold (\<lambda>(key, adjusted) m. m(adjusted \<mapsto> key)) floorToIdx_entries Map.empty"

text \<open>
  The loop \<open>for i, missingFloor = range missingFloors\<close> assigns the outer variable \<open>i\<close> at
  every iteration. \<open>k\<close> is the index of the iteration about to run and \<open>i\<close> what the
  variable holds at that point: a \<open>break\<close> leaves \<open>i = k\<close>, and when the range is exhausted
  \<open>i\<close> keeps the last index assigned.
\<close>

fun FloorToIndex_loop :: "int \<Rightarrow> int list \<Rightarrow> int \<Rightarrow> int \<Rightarrow> int" where
  "FloorToIndex_loop floor [] k i = i"
| "FloorToIndex_loop floor (missingFloor # rest) k i =
     (if floor < missingFloor then k else FloorToIndex_loop floor rest (k + 1) k)"

definition FloorToIndex :: "int \<Rightarrow> int" where
  "FloorToIndex floor0 =
     (let floor = (case floorToIdx floor0 of Some adjustedFloor \<Rightarrow> adjustedFloor | None \<Rightarrow> floor0);
          i = FloorToIndex_loop floor missingFloors 0 0
      in floor - i - 1)"

fun IndexToFloor_loop :: "int \<Rightarrow> int list \<Rightarrow> int \<Rightarrow> int \<Rightarrow> int" where
  "IndexToFloor_loop index [] k i = i"
| "IndexToFloor_loop index (missingFloor # rest) k i =
     (if index < missingFloor - 1 - k then k else IndexToFloor_loop index rest (k + 1) k)"

definition IndexToFloor :: "int \<Rightarrow> int" where
  "IndexToFloor index =
     (let i = IndexToFloor_loop index missingFloors 0 0;
          floor = index + i + 1
      in case idxToFloor floor of Some adjustedFloor \<Rightarrow> adjustedFloor | None \<Rightarrow> floor)"

definition FloorStartAddr :: "go_int \<Rightarrow> go_int \<Rightarrow> go_int" where
  "FloorStartAddr profile floorIndex =
     FILE_HEADER_OFFSET + FILE_HEADER_SIZE + floorIndex * (FLOOR_HEADER_SIZE + FLOOR_TAB_SIZE * 3)"

definition TabStartAddr :: "go_int \<Rightarrow> go_int \<Rightarrow> go_int \<Rightarrow> go_int" where
  "TabStartAddr profile floorIndex tab =
     FloorStartAddr profile floorIndex + FLOOR_HEADER_SIZE + FLOOR_TAB_SIZE * tab"

text \<open>A display floor number with on-disk data: 1..41 without the cut-scene floors.\<close>

definition has_data :: "int \<Rightarrow> bool" where
  "has_data n \<longleftrightarrow> 1 \<le> n \<and> n \<le> 41 \<and> n \<notin> {5, 15, 18, 27, 33}"

definition valid_index :: "int \<Rightarrow> bool" where
  "valid_index i \<longleftrightarrow> 0 \<le> i \<and> i < numFloors"


section \<open>Instructions and labels (package instructions)\<close>

type_synonym uint32 = "32 word"
type_synonym byte = "8 word"
type_synonym OpCode = uint32

record Instruction =
  Comment :: uint32
  Op :: uint32
  Mode :: uint32
  Arg :: uint32

definition OP_INBOX :: OpCode where "OP_INBOX = 0x0"
definition OP_OUTBOX :: OpCode where "OP_OUTBOX = 0x1"
definition OP_COPY_FROM :: OpCode where "OP_COPY_FROM = 0x2"
definition OP_COPY_TO :: OpCode where "OP_COPY_TO = 0x3"
definition OP_ADD :: OpCode where "OP_ADD = 0x4"
definition OP_SUB :: OpCode where "OP_SUB = 0x5"
definition OP_BUMP_MINUS :: OpCode where "OP_BUMP_MINUS = 0x6"
definition OP_BUMP_PLUS :: OpCode where "OP_BUMP_PLUS = 0x7"
definition OP_JUMP :: OpCode where "OP_JUMP = 0x8"
definition OP_JUMP_ZERO :: OpCode where "OP_JUMP_ZERO = 0x9"
definition OP_JUMP_NEG :: OpCode where "OP_JUMP_NEG = 0xA"
definition OP_JUMP_TGT :: OpCode where "OP_JUMP_TGT = 0xD"
definition MODE_DIRECT :: uint32 where "MODE_DIRECT = 0x1"
definition MODE_INDIRECT :: uint32 where "MODE_INDIRECT = 0x2"

text \<open>
  \<open>NextLabel\<close> walks the label from its last byte to its first with a carry, prepending
  one byte per step. After the test \<open>digit > 'z'\<close> the digit is at most 122, so
  \<open>string(digit)\<close> is the single byte \<open>digit\<close>. \<open>foldr\<close> visits the last byte first,
  as the loop \<open>for i := len(label) - 1; i >= 0; i--\<close> does.
\<close>

definition NextLabel_step :: "char \<Rightarrow> string \<times> int \<Rightarrow> string \<times> int" where
  "NextLabel_step c st =
     (case st of (new_label, carry) \<Rightarrow>
        let digit = of_char c + carry
        in if digit > of_char CHR ''z'' then (CHR ''a'' # new_label, 1)
           else (char_of digit # new_label, 0))"

definition NextLabel :: "string \<Rightarrow> string" where
  "NextLabel label =
     (case foldr NextLabel_step label ([], 1) of
        (new_label, carry) \<Rightarrow> if carry = 1 then CHR ''a'' # new_label else new_label)"

type_synonym Labels = "uint32 \<rightharpoonup> string"

text \<open>
  \<open>for i, inst := range instructions\<close>: \<open>i\<close> is the index of the slot at the head of the
  list still to scan; the key stored is \<open>uint32(i)\<close>.
\<close>

fun MakeLabels_loop :: "Instruction list \<Rightarrow> nat \<Rightarrow> Labels \<Rightarrow> string \<Rightarrow> Labels" where
  "MakeLabels_loop [] i labels label = labels"
| "MakeLabels_loop (inst # rest) i labels label =
     (if Op inst = OP_JUMP_TGT
      then MakeLabels_loop rest (i + 1) (labels(of_nat i \<mapsto> label)) (NextLabel label)
      else MakeLabels_loop rest (i + 1) labels label)"

definition MakeLabels :: "Instruction list \<Rightarrow> Labels" where
  "MakeLabels instructions = MakeLabels_loop instructions 0 Map.empty ''a''"

section \<open>The disassembler\<close>

definition InstrunctionMnemonics :: "(OpCode \<times> string) list" where
  "InstrunctionMnemonics =
     [(OP_INBOX, ''INBOX''), (OP_OUTBOX, ''OUTBOX''), (OP_COPY_FROM, ''COPYFROM''),
      (OP_COPY_TO, ''COPYTO''), (OP_ADD, ''ADD''), (OP_SUB, ''SUB''),
      (OP_BUMP_MINUS, ''BUMPDN''), (OP_BUMP_PLUS, ''BUMPUP''), (OP_JUMP, ''JUMP''),
      (OP_JUMP_ZERO, ''JUMPZ''), (OP_JUMP_NEG, ''JUMPN'')]"

definition InstrunctionMnemonics_Member :: "OpCode \<Rightarrow> bool" where
  "InstrunctionMnemonics_Member op \<longleftrightarrow> map_of InstrunctionMnemonics op \<noteq> None"

definition InstructionsWithArg :: "OpCode list" where
  "InstructionsWithArg =
     [OP_COPY_FROM, OP_COPY_TO, OP_ADD, OP_SUB, OP_BUMP_MINUS, OP_BUMP_PLUS]"

definition InstructionsWithArg_Member :: "OpCode \<Rightarrow> bool" where
  "InstructionsWithArg_Member op \<longleftrightarrow> op \<in> set InstructionsWithArg"

definition InstructionsWithLabel :: "OpCode list" where
  "InstructionsWithLabel = [OP_JUMP, OP_JUMP_ZERO, OP_JUMP_NEG]"

definition InstructionsWithLabel_Member :: "OpCode \<Rightarrow> bool" where
  "InstructionsWithLabel_Member op \<longleftrightarrow> op \<in> set InstructionsWithLabel"

text \<open>
  The disassembled entries. The fields \<open>Line\<close>, \<open>Jumpee\<close> and \<open>Target\<close> are Go \<open>int\<close>s
  holding a slot count, a slot index and a \<open>uint32\<close> value: they are modelled as
  integers, since none can overflow. A slot of the output slice that was never written
  holds the nil interface value, \<open>None\<close> here.
\<close>

datatype DisassembleInterface =
    DisassembleComment (Index: uint32)
  | DisassembleJumpTarget (Label: string) (Jumpee: int)
  | DisassembleInstruction (Line: int) (OpC: OpCode)
  | DisassembleJumpInstruction (Line: int) (OpC: OpCode) (TargetLabel: string) (Target: int)
  | DisassembleArgInstruction (Line: int) (OpC: OpCode) (ArgV: uint32) (Indirect: bool)

type_synonym Disassembled = "DisassembleInterface option list"

text \<open>An indexed store into a slice: a runtime panic (\<open>None\<close>) when the index is out of range.\<close>

definition store :: "'a list \<Rightarrow> nat \<Rightarrow> 'a \<Rightarrow> 'a list option" where
  "store xs i v = (if i < length xs then Some (xs[i := v]) else None)"

text \<open>
  One iteration of the loop of \<open>Disassemble\<close> at slot \<open>i\<close>, on the state made of the output
  slice and \<open>instNum\<close>. A label missing from the map reads as the empty string. The last
  branch is the \<open>switch\<close> falling through with no case taken: nothing is stored and
  \<open>instNum\<close> is still incremented.
\<close>

definition Disassemble_step ::
  "Labels \<Rightarrow> nat \<Rightarrow> Instruction \<Rightarrow> Disassembled \<times> int \<Rightarrow> (Disassembled \<times> int) option" where
  "Disassemble_step labels i inst st =
     (case st of (disassembled, instNum) \<Rightarrow>
        let opCode = Op inst
        in if Comment inst > 0 then
             map_option (\<lambda>d. (d, instNum)) (store disassembled i (Some (DisassembleComment (Op inst))))
           else if opCode = OP_JUMP_TGT then Some (disassembled, instNum)
           else if InstructionsWithLabel_Member opCode then
             (let label = (case labels (Arg inst) of Some l \<Rightarrow> l | None \<Rightarrow> [])
              in case store disassembled i
                        (Some (DisassembleJumpInstruction instNum opCode label (uint (Arg inst)))) of
                   None \<Rightarrow> None
                 | Some d \<Rightarrow>
                     map_option (\<lambda>d'. (d', instNum + 1))
                       (store d (unat (Arg inst)) (Some (DisassembleJumpTarget label (int i)))))
           else if InstructionsWithArg_Member opCode then
             map_option (\<lambda>d. (d, instNum + 1))
               (store disassembled i
                  (Some (DisassembleArgInstruction instNum opCode (Arg inst) (Mode inst = MODE_INDIRECT))))
           else if InstrunctionMnemonics_Member opCode then
             map_option (\<lambda>d. (d, instNum + 1))
               (store disassembled i (Some (DisassembleInstruction instNum opCode)))
           else Some (disassembled, instNum + 1))"

fun Disassemble_loop ::
  "Labels \<Rightarrow> Instruction list \<Rightarrow> nat \<Rightarrow> Disassembled \<times> int \<Rightarrow> (Disassembled \<times> int) option" where
  "Disassemble_loop labels [] i st = Some st"
| "Disassemble_loop labels (inst # rest) i st =
     (case Disassemble_step labels i inst st of
        None \<Rightarrow> None
      | Some st' \<Rightarrow> Disassemble_loop labels rest (i + 1) st')"

definition Disassemble_init :: "Instruction list \<Rightarrow> Disassembled \<times> int" where
  "Disassemble_init instructions = (replicate (length instructions) None, 1)"

definition Disassemble :: "Instruction list \<Rightarrow> Disassembled option" where
  "Disassemble instructions =
     map_option fst
       (Disassemble_loop (MakeLabels instructions) instructions 0 (Disassemble_init instructions))"

text \<open>The state of the loop of \<open>Disassemble\<close> after its first \<open>k\<close> iterations.\<close>

definition Disassemble_after :: "Instruction list \<Rightarrow> nat \<Rightarrow> (Disassembled \<times> int) option" where
  "Disassemble_after instructions k =
     Disassemble_loop (MakeLabels instructions) (take k instructions) 0 (Disassemble_init instructions)"

section \<open>The comment decoders\<close>

text \<open>
  The \<open>io.ReadSeeker\<close>: the bytes of the file and the position of the cursor. A seek past
  the end is allowed; a seek to a negative position is an error that leaves the cursor
  where it was.
\<close>

record Reader =
  data :: "byte list"
  pos :: nat

datatype error = EOF | ErrUnexpectedEOF

text \<open>\<open>binary.Read\<close> of \<open>n\<close> bytes (through \<open>io.ReadFull\<close>).\<close>

definition binary_Read :: "nat \<Rightarrow> Reader \<Rightarrow> error + (byte list \<times> Reader)" where
  "binary_Read n r =
     (let avail = length (data r) - pos r
      in if n = 0 then Inr ([], r)
         else if avail = 0 then Inl EOF
         else if avail < n then Inl ErrUnexpectedEOF
         else Inr (take n (drop (pos r) (data r)), r\<lparr>pos := pos r + n\<rparr>))"

definition le_uint32 :: "byte list \<Rightarrow> uint32" where
  "le_uint32 bs = foldr (\<lambda>b acc. ucast b + 256 * acc) bs 0"

definition le_uint16 :: "byte list \<Rightarrow> 16 word" where
  "le_uint16 bs = foldr (\<lambda>b acc. ucast b + 256 * acc) bs 0"

definition binary_Read_uint32 :: "Reader \<Rightarrow> error + (uint32 \<times> Reader)" where
  "binary_Read_uint32 r =
     (case binary_Read 4 r of Inl e \<Rightarrow> Inl e | Inr (bs, r') \<Rightarrow> Inr (le_uint32 bs, r'))"

definition Seek_current :: "int \<Rightarrow> Reader \<Rightarrow> Reader" where
  "Seek_current offset r =
     (if int (pos r) + offset < 0 then r else r\<lparr>pos := nat (int (pos r) + offset)\<rparr>)"

type_synonym RawPoint = "byte \<times> byte \<times> byte \<times> byte"
type_synonym RawComment = "RawPoint list"
type_synonym RawComments = "RawComment list"

definition binary_Read_RawPoint :: "Reader \<Rightarrow> error + (RawPoint \<times> Reader)" where
  "binary_Read_RawPoint r =
     (case binary_Read 4 r of
        Inl e \<Rightarrow> Inl e
      | Inr (bs, r') \<Rightarrow> Inr ((bs ! 0, bs ! 1, bs ! 2, bs ! 3), r'))"

text \<open>The inner loop \<open>for i = 0; i < commentLength; i++\<close>, reading one entry per iteration.\<close>

fun read_entries :: "nat \<Rightarrow> Reader \<Rightarrow> error + (RawComment \<times> Reader)" where
  "read_entries 0 r = Inr ([], r)"
| "read_entries (Suc n) r =
     (case binary_Read_RawPoint r of
        Inl e \<Rightarrow> Inl e
      | Inr (p, r') \<Rightarrow>
          (case read_entries n r' of Inl e \<Rightarrow> Inl e | Inr (ps, r'') \<Rightarrow> Inr (p # ps, r'')))"

text \<open>
  \<open>skip := int64(1024 - commentLength*4)\<close>: the subtraction and the product are \<open>uint32\<close>
  operations, and the conversion of the \<open>uint32\<close> result to \<open>int64\<close> keeps its value.
\<close>

definition comment_skip :: "uint32 \<Rightarrow> int" where
  "comment_skip commentLength = uint (1024 - commentLength * 4)"

text \<open>The body of the outer loop of \<open>DecodeRawComments\<close>: one comment record.\<close>

definition DecodeRawComment :: "Reader \<Rightarrow> error + (RawComment \<times> Reader)" where
  "DecodeRawComment r =
     (case binary_Read_uint32 r of
        Inl e \<Rightarrow> Inl e
      | Inr (commentLength, r1) \<Rightarrow>
          (case read_entries (unat commentLength) r1 of
             Inl e \<Rightarrow> Inl e
           | Inr (comment, r2) \<Rightarrow> Inr (comment, Seek_current (comment_skip commentLength) r2)))"

fun DecodeRawComments_loop :: "nat \<Rightarrow> Reader \<Rightarrow> error + (RawComments \<times> Reader)" where
  "DecodeRawComments_loop 0 r = Inr ([], r)"
| "DecodeRawComments_loop (Suc n) r =
     (case DecodeRawComment r of
        Inl e \<Rightarrow> Inl e
      | Inr (c, r') \<Rightarrow>
          (case DecodeRawComments_loop n r' of
             Inl e \<Rightarrow> Inl e
           | Inr (cs, r'') \<Rightarrow> Inr (c # cs, r'')))"

definition DecodeRawComments :: "Reader \<Rightarrow> error + (RawComments \<times> Reader)" where
  "DecodeRawComments r =
     (case binary_Read_uint32 r of
        Inl e \<Rightarrow> Inl e
      | Inr (commentsLength, r1) \<Rightarrow> DecodeRawComments_loop (unat commentsLength) r1)"

record CommentPoint =
  X :: "16 word"
  Y :: "16 word"

type_synonym CommentLine = "CommentPoint list"
type_synonym Comment = "CommentLine list"
type_synonym Comments = "Comment list"

text \<open>\<open>binary.Read\<close> of a \<open>CommentPoint\<close> from a buffer: two little-endian \<open>uint16\<close>.\<close>

definition binary_Read_CommentPoint :: "byte list \<Rightarrow> error + CommentPoint" where
  "binary_Read_CommentPoint buf =
     (if buf = [] then Inl EOF
      else if length buf < 4 then Inl ErrUnexpectedEOF
      else Inr \<lparr>X = le_uint16 (take 2 buf), Y = le_uint16 (take 2 (drop 2 buf))\<rparr>)"

definition RawPoint_bytes :: "RawPoint \<Rightarrow> byte list" where
  "RawPoint_bytes p = (case p of (b0, b1, b2, b3) \<Rightarrow> [b0, b1, b2, b3])"

text \<open>
  The inner loop of \<open>DecodeComments\<close> over the entries of one raw comment, with the
  variables \<open>comment\<close> and \<open>line\<close>. When the entries are exhausted the result is
  \<open>comment\<close>; the source does nothing with \<open>line\<close> after the loop.
\<close>

fun DecodeComment_loop :: "RawComment \<Rightarrow> Comment \<Rightarrow> CommentLine \<Rightarrow> error + Comment" where
  "DecodeComment_loop [] comment line = Inr comment"
| "DecodeComment_loop (rawPoint # rest) comment line =
     (if rawPoint = (0, 0, 0, 0) then DecodeComment_loop rest (comment @ [line]) []
      else case binary_Read_CommentPoint (RawPoint_bytes rawPoint) of
             Inl e \<Rightarrow> Inl e
           | Inr point \<Rightarrow> DecodeComment_loop rest comment (line @ [point]))"

fun DecodeComments :: "RawComments \<Rightarrow> error + Comments" where
  "DecodeComments [] = Inr []"
| "DecodeComments (rawComment # rest) =
     (case DecodeComment_loop rawComment [] [] of
        Inl e \<Rightarrow> Inl e
      | Inr comment \<Rightarrow>
          (case DecodeComments rest of Inl e \<Rightarrow> Inl e | Inr comments \<Rightarrow> Inr (comment # comments)))"

section \<open>Notions used to state the properties\<close>

text \<open>
  The three kinds of slot the loop of \<open>Disassemble\<close> distinguishes: a slot that takes the
  jump branch, a slot after which \<open>instNum\<close> is incremented (neither a comment nor a
  jump target), and a slot for which an entry carrying a line number is stored.
\<close>

definition jump_slot :: "Instruction \<Rightarrow> bool" where
  "jump_slot inst \<longleftrightarrow> Comment inst = 0 \<and> InstructionsWithLabel_Member (Op inst)"

definition counting_slot :: "Instruction \<Rightarrow> bool" where
  "counting_slot inst \<longleftrightarrow> Comment inst = 0 \<and> Op inst \<noteq> OP_JUMP_TGT"

definition instruction_slot :: "Instruction \<Rightarrow> bool" where
  "instruction_slot inst \<longleftrightarrow> Comment inst = 0 \<and> InstrunctionMnemonics_Member (Op inst)"

text \<open>The line number an output slot carries, if any, and those of an output in order.\<close>

fun Line_of :: "DisassembleInterface option \<Rightarrow> int option" where
  "Line_of (Some (DisassembleInstruction l opc)) = Some l"
| "Line_of (Some (DisassembleJumpInstruction l opc lbl tgt)) = Some l"
| "Line_of (Some (DisassembleArgInstruction l opc a ind)) = Some l"
| "Line_of (Some (DisassembleComment idx)) = None"
| "Line_of (Some (DisassembleJumpTarget lbl j)) = None"
| "Line_of None = None"

definition line_numbers :: "Disassembled \<Rightarrow> int list" where
  "line_numbers d = List.map_filter Line_of d"

text \<open>
  A well-formed program: every slot that is neither a comment nor a jump target holds one
  of the eleven mnemonics, and every jump points at a slot of the program that is a
  comment or a jump target.
\<close>

definition well_formed :: "Instruction list \<Rightarrow> bool" where
  "well_formed instructions \<longleftrightarrow>
     (\<forall>inst \<in> set instructions. counting_slot inst \<longrightarrow> instruction_slot inst) \<and>
     (\<forall>inst \<in> set instructions. jump_slot inst \<longrightarrow>
        unat (Arg inst) < length instructions \<and>
        \<not> counting_slot (instructions ! unat (Arg inst)))"

text \<open>
  The base-26 label sequence \<open>a, b, \<dots>, z, aa, ab, \<dots>, az, ba, \<dots>\<close>: \<open>label_seq n\<close> is its
  \<open>n\<close>-th member, counting from 0.
\<close>

function label_seq :: "nat \<Rightarrow> string" where
  "label_seq n =
     (if n < 26 then [char_of (of_char CHR ''a'' + n)]
      else label_seq (n div 26 - 1) @ [char_of (of_char CHR ''a'' + n mod 26)])"
  by pat_completeness auto
termination
  by (relation "measure id") auto

declare label_seq.simps [simp del]

text \<open>The number of slots before slot \<open>j\<close> whose opcode field is \<open>OP_JUMP_TGT\<close>.\<close>

definition target_rank :: "Instruction list \<Rightarrow> nat \<Rightarrow> nat" where
  "target_rank instructions j =
     length (filter (\<lambda>inst. Op inst = OP_JUMP_TGT) (take j instructions))"

text \<open>
  The label pre-pass as the specification words it: scan the slots from left to right
  and, at every slot whose opcode is of the jump family, give the slot its argument points
  at the next unused label unless it has one already.
\<close>

fun spec_label_prepass_loop :: "Instruction list \<Rightarrow> Labels \<Rightarrow> string \<Rightarrow> Labels" where
  "spec_label_prepass_loop [] labels label = labels"
| "spec_label_prepass_loop (inst # rest) labels label =
     (if InstructionsWithLabel_Member (Op inst) \<and> labels (Arg inst) = None
      then spec_label_prepass_loop rest (labels(Arg inst \<mapsto> label)) (NextLabel label)
      else spec_label_prepass_loop rest labels label)"

definition spec_label_prepass :: "Instruction list \<Rightarrow> Labels" where
  "spec_label_prepass instructions = spec_label_prepass_loop instructions Map.empty ''a''"

section \<open>Properties of the byte-layout addressing\<close>

lemmas op_defs = OP_INBOX_def OP_OUTBOX_def OP_COPY_FROM_def OP_COPY_TO_def OP_ADD_def
  OP_SUB_def OP_BUMP_MINUS_def OP_BUMP_PLUS_def OP_JUMP_def OP_JUMP_ZERO_def OP_JUMP_NEG_def
  OP_JUMP_TGT_def MODE_DIRECT_def MODE_INDIRECT_def

lemma FloorToIndex_closed:
  "FloorToIndex n =
     (let f = (if n = 36 then 39 else if n = 37 then 36 else if n = 38 then 40
               else if n = 39 then 37 else if n = 40 then 41 else if n = 41 then 38 else n)
      in if f < 5 then f - 1 else if f < 15 then f - 2 else if f < 18 then f - 3
         else if f < 27 then f - 4 else if f < 33 then f - 5 else f - 6)"
  by (simp add: FloorToIndex_def floorToIdx_def floorToIdx_entries_def missingFloors_def Let_def)

lemma IndexToFloor_closed:
  "IndexToFloor i =
     (let f = (if i < 4 then i + 1 else if i < 13 then i + 2 else if i < 15 then i + 3
               else if i < 23 then i + 4 else if i < 28 then i + 5 else i + 6)
      in if f = 39 then 36 else if f = 36 then 37 else if f = 40 then 38
         else if f = 37 then 39 else if f = 41 then 40 else if f = 38 then 41 else f)"
  by (simp add: IndexToFloor_def idxToFloor_def floorToIdx_entries_def missingFloors_def Let_def)

lemma IndexToFloor_FloorToIndex:
  "has_data n \<Longrightarrow> IndexToFloor (FloorToIndex n) = n \<and> valid_index (FloorToIndex n)"
  unfolding has_data_def valid_index_def numFloors_def FloorToIndex_closed IndexToFloor_closed Let_def
  by (simp split: if_splits)

lemma FloorToIndex_IndexToFloor:
  "valid_index i \<Longrightarrow> FloorToIndex (IndexToFloor i) = i \<and> has_data (IndexToFloor i)"
  unfolding has_data_def valid_index_def numFloors_def FloorToIndex_closed IndexToFloor_closed Let_def
  by (simp split: if_splits)

text \<open>
  Claim C5. For every display floor number \<open>n\<close> with on-disk data (1..41, not a cut-scene
  floor) \<open>FloorToIndex n\<close> is an on-disk index in 0..35 and \<open>IndexToFloor\<close> maps it back to
  \<open>n\<close>; for every on-disk index \<open>i\<close> in 0..35 \<open>IndexToFloor i\<close> is such a floor number and
  \<open>FloorToIndex\<close> maps it back to \<open>i\<close>. The two functions are mutually inverse bijections
  between the floors with data and the indices.
\<close>

theorem floor_index_round_trip:
  "(has_data n \<longrightarrow> IndexToFloor (FloorToIndex n) = n \<and> valid_index (FloorToIndex n)) \<and>
   (valid_index i \<longrightarrow> FloorToIndex (IndexToFloor i) = i \<and> has_data (IndexToFloor i))"
  using IndexToFloor_FloorToIndex [of n] FloorToIndex_IndexToFloor [of i] by blast

theorem floor_index_round_trip_witness:
  "has_data 36 \<and> FloorToIndex 36 = 33 \<and> IndexToFloor (FloorToIndex 36) = 36 \<and>
   valid_index 33 \<and> IndexToFloor 33 = 36 \<and> FloorToIndex (IndexToFloor 33) = 33"
  using floor_index_round_trip [of 36 33]
  by (simp add: has_data_def valid_index_def numFloors_def FloorToIndex_closed IndexToFloor_closed)

lemma sint_add_no_wrap:
  fixes a b :: "64 word"
  assumes "- (2 ^ 63) \<le> sint a + sint b" and "sint a + sint b < 2 ^ 63"
  shows "sint (a + b) = sint a + sint b"
proof -
  have "sint (a + b) = signed_take_bit 63 (sint a + sint b)"
    by (simp add: sint_word_ariths)
  also have "\<dots> = sint a + sint b"
    using assms by (rule signed_take_bit_int_eq_self)
  finally show ?thesis .
qed

lemma sint_mult_no_wrap:
  fixes a b :: "64 word"
  assumes "- (2 ^ 63) \<le> sint a * sint b" and "sint a * sint b < 2 ^ 63"
  shows "sint (a * b) = sint a * sint b"
proof -
  have "sint (a * b) = signed_take_bit 63 (sint a * sint b)"
    by (simp add: sint_word_ariths)
  also have "\<dots> = sint a * sint b"
    using assms by (rule signed_take_bit_int_eq_self)
  finally show ?thesis .
qed

lemma TabStartAddr_word:
  "TabStartAddr p i t = 76 + i * 138796 + t * 46252"
  by (simp add: TabStartAddr_def FloorStartAddr_def FILE_HEADER_OFFSET_def FILE_HEADER_SIZE_def
      FLOOR_HEADER_SIZE_def FLOOR_TAB_SIZE_def)

lemma TabStartAddr_sint:
  fixes i t :: go_int
  assumes "\<bar>sint i\<bar> \<le> 2 ^ 40" and "\<bar>sint t\<bar> \<le> 2 ^ 40"
  shows "sint (TabStartAddr p i t) = 36 + sint i * (40 + 3 * 46252) + 40 + sint t * 46252"
proof -
  have c1: "sint (138796 :: go_int) = 138796" and c2: "sint (46252 :: go_int) = 46252"
    and c3: "sint (76 :: go_int) = 76"
    by simp_all
  have 1: "sint (i * 138796) = sint i * 138796"
    using sint_mult_no_wrap [of i 138796] assms(1) unfolding c1 by simp
  have 2: "sint (t * 46252) = sint t * 46252"
    using sint_mult_no_wrap [of t 46252] assms(2) unfolding c2 by simp
  have 3: "sint (76 + i * 138796) = 76 + sint i * 138796"
    using sint_add_no_wrap [of 76 "i * 138796"] assms(1) unfolding c3 1 by simp
  have 4: "sint ((76 + i * 138796) + t * 46252) = 76 + sint i * 138796 + sint t * 46252"
    using sint_add_no_wrap [of "76 + i * 138796" "t * 46252"] assms unfolding 2 3 by simp
  show ?thesis
    unfolding TabStartAddr_word using 4 by simp
qed

text \<open>
  Claim C8. For every floor index \<open>i\<close> and tab index \<open>t\<close>, \<open>TabStartAddr\<close> returns
  \<open>36 + i * (40 + 3 * 46252) + 40 + t * 46252\<close>: as an identity of the program's 64-bit
  arithmetic for all \<open>i\<close> and \<open>t\<close>, with floorStart \<open>= 36 + i * (40 + 3 * 46252)\<close>, and as an
  identity of the integers they denote whenever \<open>i\<close> and \<open>t\<close> are at most \<open>2 ^ 40\<close> in
  absolute value (far beyond the 36 floors and 3 tabs of the format), where nothing wraps.
  The profile number does not enter the result.
\<close>

theorem TabStartAddr_formula:
  "FloorStartAddr p i = 36 + i * (40 + 3 * 46252) \<and>
   TabStartAddr p i t = FloorStartAddr p i + 40 + t * 46252 \<and>
   TabStartAddr p i t = 36 + i * (40 + 3 * 46252) + 40 + t * 46252 \<and>
   (\<bar>sint i\<bar> \<le> 2 ^ 40 \<and> \<bar>sint t\<bar> \<le> 2 ^ 40 \<longrightarrow>
      sint (TabStartAddr p i t) = 36 + sint i * (40 + 3 * 46252) + 40 + sint t * 46252)"
proof (intro conjI impI)
  show "FloorStartAddr p i = 36 + i * (40 + 3 * 46252)"
    by (simp add: FloorStartAddr_def FILE_HEADER_OFFSET_def FILE_HEADER_SIZE_def
        FLOOR_HEADER_SIZE_def FLOOR_TAB_SIZE_def)
  show "TabStartAddr p i t = FloorStartAddr p i + 40 + t * 46252"
    by (simp add: TabStartAddr_def FLOOR_HEADER_SIZE_def FLOOR_TAB_SIZE_def)
  show "TabStartAddr p i t = 36 + i * (40 + 3 * 46252) + 40 + t * 46252"
    by (simp add: TabStartAddr_word)
next
  assume "\<bar>sint i\<bar> \<le> 2 ^ 40 \<and> \<bar>sint t\<bar> \<le> 2 ^ 40"
  then show "sint (TabStartAddr p i t) = 36 + sint i * (40 + 3 * 46252) + 40 + sint t * 46252"
    by (intro TabStartAddr_sint) blast+
qed

theorem TabStartAddr_formula_witness:
  "\<bar>sint (35 :: go_int)\<bar> \<le> 2 ^ 40 \<and> \<bar>sint (2 :: go_int)\<bar> \<le> 2 ^ 40 \<and>
   TabStartAddr 1 35 2 = 4950440 \<and> sint (TabStartAddr 1 35 2) = 4950440"
proof -
  have h: "\<bar>sint (35 :: go_int)\<bar> \<le> 2 ^ 40 \<and> \<bar>sint (2 :: go_int)\<bar> \<le> 2 ^ 40"
    by simp
  have v: "TabStartAddr 1 35 2 = 4950440"
    by (simp add: TabStartAddr_word)
  have s35: "sint (35 :: go_int) = 35" and s2: "sint (2 :: go_int) = 2"
    by simp_all
  from TabStartAddr_formula [of 1 35 2] h
  have "sint (TabStartAddr 1 35 2) = 36 + sint (35 :: go_int) * (40 + 3 * 46252) + 40 + sint (2 :: go_int) * 46252"
    by blast
  then have "sint (TabStartAddr 1 35 2) = 4950440"
    unfolding s35 s2 by simp
  with h v show ?thesis by blast
qed


section \<open>Properties of the comment decoders\<close>

lemma binary_Read_CommentPoint_RawPoint:
  "binary_Read_CommentPoint (RawPoint_bytes p) =
     (case p of (b0, b1, b2, b3) \<Rightarrow> Inr \<lparr>X = le_uint16 [b0, b1], Y = le_uint16 [b2, b3]\<rparr>)"
  by (cases p) (simp add: binary_Read_CommentPoint_def RawPoint_bytes_def)

lemma DecodeComment_loop_lines:
  "\<exists>c. DecodeComment_loop rc comment line = Inr c \<and>
       length c = length comment + length (filter (\<lambda>p. p = (0, 0, 0, 0)) rc)"
proof (induction rc arbitrary: comment line)
  case Nil
  show ?case by simp
next
  case (Cons p rc)
  show ?case
  proof (cases "p = (0, 0, 0, 0)")
    case True
    with Cons [of "comment @ [line]" "[]"] show ?thesis by simp
  next
    case False
    obtain pt where "binary_Read_CommentPoint (RawPoint_bytes p) = Inr pt"
      by (cases p) (simp add: binary_Read_CommentPoint_RawPoint)
    with False Cons [of comment "line @ [pt]"] show ?thesis by simp
  qed
qed

lemma comment_skip_mod: "comment_skip K = (1024 - 4 * uint K) mod 2 ^ 32"
  by (simp add: comment_skip_def uint_word_ariths mod_diff_right_eq mod_mult_right_eq mult.commute)

lemma comment_skip_range: "0 \<le> comment_skip K \<and> comment_skip K < 2 ^ 32"
  using uint_lt2p [of "1024 - K * 4"] by (simp add: comment_skip_def)

lemma comment_skip_small:
  assumes "uint K \<le> 256"
  shows "comment_skip K = 1024 - 4 * uint K"
proof -
  have nn: "0 \<le> uint K" by simp
  have "0 \<le> 1024 - 4 * uint K"
    using assms by arith
  moreover have "1024 - 4 * uint K < 4294967296"
    using nn by arith
  ultimately have "(1024 - 4 * uint K) mod 4294967296 = 1024 - 4 * uint K"
    by (rule mod_pos_pos_trivial)
  then show ?thesis unfolding comment_skip_mod by simp
qed

lemma comment_skip_large:
  assumes "256 < uint K" and "uint K < 2 ^ 30"
  shows "comment_skip K = 2 ^ 32 + 1024 - 4 * uint K"
proof -
  have lt: "uint K < 1073741824" using assms(2) by simp
  have "(1024 - 4 * uint K) mod 4294967296 = ((1024 - 4 * uint K) + 4294967296) mod 4294967296"
    by (simp only: mod_add_self2)
  also have "\<dots> = (1024 - 4 * uint K) + 4294967296"
  proof (rule mod_pos_pos_trivial)
    show "0 \<le> 1024 - 4 * uint K + 4294967296" using lt by arith
    show "1024 - 4 * uint K + 4294967296 < 4294967296" using assms(1) by arith
  qed
  finally show ?thesis unfolding comment_skip_mod by simp
qed

lemma Seek_current_forward: "0 \<le> k \<Longrightarrow> pos (Seek_current k r) = pos r + nat k \<and> data (Seek_current k r) = data r"
  by (simp add: Seek_current_def nat_add_distrib)

lemma binary_Read_ok:
  "0 < n \<Longrightarrow> pos r + n \<le> length (data r) \<Longrightarrow>
   binary_Read n r = Inr (take n (drop (pos r) (data r)), r\<lparr>pos := pos r + n\<rparr>)"
  by (simp add: binary_Read_def Let_def)

lemma binary_Read_Inr:
  "binary_Read n r = Inr (bs, r') \<Longrightarrow> pos r' = pos r + n \<and> data r' = data r"
  by (auto simp: binary_Read_def Let_def split: if_splits)

lemma binary_Read_RawPoint_Inr:
  "binary_Read_RawPoint r = Inr (p, r') \<Longrightarrow> pos r' = pos r + 4 \<and> data r' = data r"
  by (auto simp: binary_Read_RawPoint_def split: sum.splits dest: binary_Read_Inr)

lemma binary_Read_uint32_Inr:
  "binary_Read_uint32 r = Inr (w, r') \<Longrightarrow> pos r' = pos r + 4 \<and> data r' = data r"
  by (auto simp: binary_Read_uint32_def split: sum.splits dest: binary_Read_Inr)

lemma read_entries_Inr:
  "read_entries n r = Inr (ps, r') \<Longrightarrow>
   length ps = n \<and> pos r' = pos r + 4 * n \<and> data r' = data r"
proof (induction n arbitrary: r ps r')
  case 0
  then show ?case by simp
next
  case (Suc n)
  from Suc.prems obtain p r1 ps1 where
    p: "binary_Read_RawPoint r = Inr (p, r1)" and
    rest: "read_entries n r1 = Inr (ps1, r')" and ps: "ps = p # ps1"
    by (auto split: sum.splits)
  from binary_Read_RawPoint_Inr [OF p] Suc.IH [OF rest] ps show ?case by simp
qed

lemma read_entries_ok:
  "pos r + 4 * n \<le> length (data r) \<Longrightarrow> \<exists>ps r'. read_entries n r = Inr (ps, r')"
proof (induction n arbitrary: r)
  case 0
  show ?case by simp
next
  case (Suc n)
  have rd: "binary_Read_RawPoint r =
      Inr ((\<lambda>bs. (bs ! 0, bs ! 1, bs ! 2, bs ! 3)) (take 4 (drop (pos r) (data r))), r\<lparr>pos := pos r + 4\<rparr>)"
    using Suc.prems by (simp add: binary_Read_RawPoint_def binary_Read_ok)
  have "pos (r\<lparr>pos := pos r + 4\<rparr>) + 4 * n \<le> length (data (r\<lparr>pos := pos r + 4\<rparr>))"
    using Suc.prems by simp
  from Suc.IH [OF this] obtain ps r' where "read_entries n (r\<lparr>pos := pos r + 4\<rparr>) = Inr (ps, r')"
    by blast
  with rd show ?case by simp
qed

lemma DecodeRawComment_Inr:
  assumes "DecodeRawComment r = Inr (c, r')"
  shows "data r' = data r \<and>
         int (pos r') = int (pos r) + 4 + 4 * int (length c) + comment_skip (of_nat (length c))"
proof -
  from assms obtain K r1 r2 where
    k: "binary_Read_uint32 r = Inr (K, r1)" and
    e: "read_entries (unat K) r1 = Inr (c, r2)" and
    r': "r' = Seek_current (comment_skip K) r2"
    by (auto simp: DecodeRawComment_def split: sum.splits)
  from read_entries_Inr [OF e] have len: "length c = unat K" and p2: "pos r2 = pos r1 + 4 * unat K"
    and d2: "data r2 = data r1" by simp_all
  from binary_Read_uint32_Inr [OF k] have p1: "pos r1 = pos r + 4" and d1: "data r1 = data r"
    by simp_all
  have K: "of_nat (length c) = K" using len by simp
  have nonneg: "0 \<le> comment_skip K" by (simp add: comment_skip_def)
  have "pos (Seek_current (comment_skip K) r2) = pos r2 + nat (comment_skip K)"
    and "data (Seek_current (comment_skip K) r2) = data r2"
    using Seek_current_forward [OF nonneg, of r2] by simp_all
  then show ?thesis
    unfolding K r' using nonneg p1 p2 d1 d2 len by simp
qed

lemma DecodeRawComment_ok:
  assumes "pos r + 4 \<le> length (data r)"
    and "K = le_uint32 (take 4 (drop (pos r) (data r)))"
    and "pos r + 4 + 4 * unat K \<le> length (data r)"
  shows "\<exists>c r'. DecodeRawComment r = Inr (c, r') \<and> length c = unat K"
proof -
  have k: "binary_Read_uint32 r = Inr (K, r\<lparr>pos := pos r + 4\<rparr>)"
    using assms(1,2) by (simp add: binary_Read_uint32_def binary_Read_ok)
  have "pos (r\<lparr>pos := pos r + 4\<rparr>) + 4 * unat K \<le> length (data (r\<lparr>pos := pos r + 4\<rparr>))"
    using assms(3) by simp
  from read_entries_ok [OF this] obtain ps r2 where
    e: "read_entries (unat K) (r\<lparr>pos := pos r + 4\<rparr>) = Inr (ps, r2)" by blast
  from read_entries_Inr [OF e] have "length ps = unat K" by simp
  with k e show ?thesis by (simp add: DecodeRawComment_def)
qed

lemma DecodeRawComments_loop_Inr:
  "DecodeRawComments_loop n r = Inr (cs, r') \<Longrightarrow> \<forall>c \<in> set cs. length c \<le> 256 \<Longrightarrow>
   length cs = n \<and> pos r' = pos r + 1028 * n"
proof (induction n arbitrary: r cs r')
  case 0
  then show ?case by simp
next
  case (Suc n)
  from Suc.prems(1) obtain c r1 cs1 where
    c: "DecodeRawComment r = Inr (c, r1)" and
    rest: "DecodeRawComments_loop n r1 = Inr (cs1, r')" and cs: "cs = c # cs1"
    by (auto split: sum.splits)
  have small: "length c \<le> 256" and "\<forall>c \<in> set cs1. length c \<le> 256"
    using Suc.prems(2) cs by simp_all
  from Suc.IH [OF rest this(2)] have ih: "length cs1 = n" "pos r' = pos r1 + 1028 * n" by simp_all
  have "uint (of_nat (length c) :: uint32) = int (length c)"
    using small by (simp add: uint_nat unat_of_nat)
  then have "comment_skip (of_nat (length c)) = 1024 - 4 * int (length c)"
    using small by (simp add: comment_skip_small)
  with DecodeRawComment_Inr [OF c] have "int (pos r1) = int (pos r) + 1028" by simp
  then have "pos r1 = pos r + 1028" by linarith
  with ih cs show ?case by simp
qed

lemma read_entries_1: "read_entries 1 r =
  (case binary_Read_RawPoint r of Inl e \<Rightarrow> Inl e | Inr (p, r') \<Rightarrow> Inr ([p], r'))"
  by (simp split: sum.splits)

lemma read_entries_2: "read_entries 2 r =
  (case binary_Read_RawPoint r of Inl e \<Rightarrow> Inl e
   | Inr (p, r') \<Rightarrow> (case binary_Read_RawPoint r' of Inl e \<Rightarrow> Inl e | Inr (q, r'') \<Rightarrow> Inr ([p, q], r'')))"
  by (simp add: numeral_2_eq_2 split: sum.splits)

text \<open>
  Claim C1, evaluated on the program. \<open>DecodeComments\<close> closes a line at every all-zero
  entry, but the points that follow the last sentinel are accumulated in \<open>line\<close> and never
  appended: the raw comment \<open>[(1,1),(2,2),(0,0,0,0),(5,5)]\<close> decodes to the single line
  \<open>[(1,1),(2,2)]\<close>, and the dot \<open>(5,5)\<close> is lost. (In general a decoded comment has as many
  lines as its raw comment has sentinels: lemma \<open>DecodeComment_loop_lines\<close>.)
\<close>

theorem DecodeComments_open_line_lost:
  "DecodeComments [[(1, 0, 1, 0), (2, 0, 2, 0), (0, 0, 0, 0), (5, 0, 5, 0)]] =
     Inr [[[\<lparr>X = 1, Y = 1\<rparr>, \<lparr>X = 2, Y = 2\<rparr>]]]"
  by (simp add: binary_Read_CommentPoint_RawPoint le_uint16_def)

text \<open>
  Claim C2, as amended. For every comment record whose declared entry count \<open>K\<close> is at most
  256 and whose count word and \<open>K\<close> entries lie within the stream, \<open>DecodeRawComments\<close>
  reads the count (4 bytes), reads the \<open>K\<close> entries (\<open>4 * K\<close> bytes) and seeks forward by
  \<open>1024 - 4 * K\<close>: the net advance for the record is 1028 bytes, the count word plus the
  1024-byte slot, whatever \<open>K\<close> is.
\<close>

theorem DecodeRawComment_advance:
  assumes "pos r + 4 \<le> length (data r)"
    and "K = le_uint32 (take 4 (drop (pos r) (data r)))"
    and "unat K \<le> 256"
    and "pos r + 4 + 4 * unat K \<le> length (data r)"
  shows "\<exists>c r'. DecodeRawComment r = Inr (c, r') \<and> length c = unat K \<and>
           pos r' = pos r + 1028 \<and> data r' = data r"
proof -
  from DecodeRawComment_ok [OF assms(1,2,4)] obtain c r' where
    ok: "DecodeRawComment r = Inr (c, r')" and len: "length c = unat K" by blast
  have K: "of_nat (length c) = K" unfolding len by simp
  have u: "uint K = int (length c)" unfolding len by (rule uint_nat)
  have "uint K \<le> 256" using assms(3) unfolding u len by linarith
  then have skip: "comment_skip K = 1024 - 4 * uint K" by (rule comment_skip_small)
  from DecodeRawComment_Inr [OF ok]
  have d: "data r' = data r"
    and "int (pos r') = int (pos r) + 4 + 4 * int (length c) + comment_skip K"
    unfolding K by blast+
  then have "int (pos r') = int (pos r) + 1028"
    unfolding skip u by linarith
  then have "pos r' = pos r + 1028" by linarith
  with ok len d show ?thesis by blast
qed

theorem DecodeRawComment_advance_witness:
  "pos \<lparr>data = [1, 0, 0, 0, 7, 0, 9, 0], pos = 0\<rparr> + 4 \<le> length (data \<lparr>data = [1 :: byte, 0, 0, 0, 7, 0, 9, 0], pos = 0\<rparr>) \<and>
   (1 :: uint32) = le_uint32 (take 4 (drop 0 [1, 0, 0, 0, 7, 0, 9, 0])) \<and>
   unat (1 :: uint32) \<le> 256 \<and>
   DecodeRawComment \<lparr>data = [1, 0, 0, 0, 7, 0, 9, 0], pos = 0\<rparr> =
     Inr ([(7, 0, 9, 0)], \<lparr>data = [1, 0, 0, 0, 7, 0, 9, 0], pos = 1028\<rparr>)"
  using DecodeRawComment_advance [of "\<lparr>data = [1, 0, 0, 0, 7, 0, 9, 0], pos = 0\<rparr>" 1]
  by (simp add: DecodeRawComment_def binary_Read_uint32_def binary_Read_def le_uint32_def
      binary_Read_RawPoint_def comment_skip_def Seek_current_def read_entries_1)

text \<open>With \<open>K = 2\<close> the cursor ends at offset 1028, not 1024.\<close>

theorem DecodeRawComment_advance_counterexample:
  "DecodeRawComment \<lparr>data = [2, 0, 0, 0, 1, 0, 1, 0, 2, 0, 2, 0], pos = 0\<rparr> =
     Inr ([(1, 0, 1, 0), (2, 0, 2, 0)], \<lparr>data = [2, 0, 0, 0, 1, 0, 1, 0, 2, 0, 2, 0], pos = 1028\<rparr>)"
  by (simp add: DecodeRawComment_def binary_Read_uint32_def binary_Read_def le_uint32_def
      binary_Read_RawPoint_def comment_skip_def Seek_current_def read_entries_2)

text \<open>
  Claim C10, as amended. The seek amount is \<open>(1024 - 4 * K) mod 2 ^ 32\<close> for every declared
  count \<open>K\<close>; it is never negative and the cursor never moves backwards. For \<open>K \<le> 256\<close> it is
  \<open>1024 - 4 * K\<close>; for \<open>256 < K < 2 ^ 30\<close> it is \<open>2 ^ 32 + 1024 - 4 * K\<close>, which falls from
  \<open>2 ^ 32 - 4\<close> at \<open>K = 257\<close> to 1028. From \<open>K = 2 ^ 30\<close> on the product \<open>4 * K\<close> wraps as
  well and the amount is small again.
\<close>

theorem comment_skip_unsigned:
  "comment_skip K = (1024 - 4 * uint K) mod 2 ^ 32 \<and>
   0 \<le> comment_skip K \<and> comment_skip K < 2 ^ 32 \<and>
   pos (Seek_current (comment_skip K) r) = pos r + nat (comment_skip K) \<and>
   (uint K \<le> 256 \<longrightarrow> comment_skip K = 1024 - 4 * uint K) \<and>
   (256 < uint K \<and> uint K < 2 ^ 30 \<longrightarrow> comment_skip K = 2 ^ 32 + 1024 - 4 * uint K)"
  using comment_skip_mod [of K] comment_skip_range [of K] comment_skip_small [of K]
    comment_skip_large [of K] Seek_current_forward [of "comment_skip K" r]
  by blast

theorem comment_skip_unsigned_witness:
  "256 < uint (257 :: uint32) \<and> uint (257 :: uint32) < 2 ^ 30 \<and>
   comment_skip 257 = 2 ^ 32 + 1024 - 4 * uint (257 :: uint32) \<and> comment_skip 257 = 4294967292 \<and>
   uint (2 :: uint32) \<le> 256 \<and> comment_skip 2 = 1016"
  using comment_skip_unsigned [of 257] comment_skip_unsigned [of 2]
  by (simp add: comment_skip_def)

text \<open>A count above 256 for which the decoder does not seek at all.\<close>

theorem comment_skip_counterexample: "256 < (2 ^ 30 + 256 :: uint32) \<and> comment_skip (2 ^ 30 + 256) = 0"
  by (simp add: comment_skip_def)

section \<open>Properties of the label pre-pass\<close>

lemma NextLabel_step_carry:
  "(of_char c :: int) < 122 \<Longrightarrow>
   NextLabel_step c (acc, 1) = (char_of (of_char c + 1 :: int) # acc, 0)"
  by (simp add: NextLabel_step_def Let_def)

lemma NextLabel_step_wrap:
  "(of_char c :: int) = 122 \<Longrightarrow> NextLabel_step c (acc, 1) = (CHR ''a'' # acc, 1)"
  by (simp add: NextLabel_step_def Let_def)

lemma NextLabel_step_keep:
  "(of_char c :: int) \<le> 122 \<Longrightarrow> NextLabel_step c (acc, 0) = (c # acc, 0)"
  by (simp add: NextLabel_step_def Let_def)

lemma foldr_NextLabel_step_keep:
  "\<forall>c \<in> set xs. (of_char c :: int) \<le> 122 \<Longrightarrow>
   foldr NextLabel_step xs (acc, 0) = (xs @ acc, 0)"
  by (induction xs) (simp_all add: NextLabel_step_keep)

lemma NextLabel_step_acc:
  "NextLabel_step c (acc, carry) =
     (fst (NextLabel_step c ([], carry)) @ acc, snd (NextLabel_step c ([], carry)))"
  by (simp add: NextLabel_step_def Let_def)

lemma foldr_NextLabel_step_acc:
  "foldr NextLabel_step xs (acc, carry) =
     (fst (foldr NextLabel_step xs ([], carry)) @ acc, snd (foldr NextLabel_step xs ([], carry)))"
proof (induction xs)
  case Nil
  show ?case by simp
next
  case (Cons x xs)
  obtain nl cr where A: "foldr NextLabel_step xs ([], carry) = (nl, cr)"
    by (cases "foldr NextLabel_step xs ([], carry)")
  have "foldr NextLabel_step (x # xs) (acc, carry) = NextLabel_step x (nl @ acc, cr)"
    using Cons A by simp
  also have "\<dots> = (fst (NextLabel_step x ([], cr)) @ nl @ acc, snd (NextLabel_step x ([], cr)))"
    by (rule NextLabel_step_acc)
  finally have l: "foldr NextLabel_step (x # xs) (acc, carry) =
      (fst (NextLabel_step x ([], cr)) @ nl @ acc, snd (NextLabel_step x ([], cr)))" .
  have "foldr NextLabel_step (x # xs) ([], carry) = NextLabel_step x (nl, cr)"
    using A by simp
  also have "\<dots> = (fst (NextLabel_step x ([], cr)) @ nl, snd (NextLabel_step x ([], cr)))"
    by (rule NextLabel_step_acc)
  finally show ?case using l by simp
qed

lemma NextLabel_Nil: "NextLabel [] = ''a''"
  by (simp add: NextLabel_def)

lemma NextLabel_snoc_carry:
  assumes "\<forall>c \<in> set xs. (of_char c :: int) \<le> 122" and "(of_char c :: int) < 122"
  shows "NextLabel (xs @ [c]) = xs @ [char_of (of_char c + 1 :: int)]"
  using assms by (simp add: NextLabel_def NextLabel_step_carry foldr_NextLabel_step_keep)

lemma NextLabel_snoc_wrap:
  assumes "(of_char c :: int) = 122"
  shows "NextLabel (xs @ [c]) = NextLabel xs @ ''a''"
proof -
  obtain nl carry where f: "foldr NextLabel_step xs ([], 1) = (nl, carry)"
    by (cases "foldr NextLabel_step xs ([], 1)")
  have "foldr NextLabel_step (xs @ [c]) ([], 1) = foldr NextLabel_step xs (''a'', 1)"
    using assms by (simp add: NextLabel_step_wrap)
  also have "\<dots> = (nl @ ''a'', carry)"
    by (subst foldr_NextLabel_step_acc) (simp add: f)
  finally show ?thesis
    by (simp add: NextLabel_def f)
qed

lemma letter_code:
  assumes "k < 26"
  shows "(of_char (char_of (97 + k :: nat)) :: int) = 97 + int k"
proof -
  have "(of_char (char_of (97 + k :: nat)) :: int) = int (of_char (char_of (97 + k :: nat)))"
    by (simp only: of_nat_of_char)
  also have "(of_char (char_of (97 + k :: nat)) :: nat) = (97 + k) mod 256"
    by (rule of_char_of)
  also have "(97 + k) mod 256 = 97 + k"
    using assms by simp
  finally show ?thesis by simp
qed

lemma letter_succ:
  assumes "Suc k < 26"
  shows "char_of ((of_char (char_of (97 + k :: nat)) :: int) + 1) = char_of (97 + Suc k :: nat)"
proof -
  have "k < 26" using assms by simp
  then have "(of_char (char_of (97 + k :: nat)) :: int) + 1 = int (97 + Suc k)"
    by (simp add: letter_code del: of_char_of)
  then have "char_of ((of_char (char_of (97 + k :: nat)) :: int) + 1) =
      char_of (int (97 + Suc k))" by (rule arg_cong)
  also have "\<dots> = char_of (97 + Suc k :: nat)" by (rule char_of_nat)
  finally show ?thesis .
qed

lemma label_seq_unfold:
  "label_seq n =
     (if n < 26 then [char_of (97 + n)] else label_seq (n div 26 - 1) @ [char_of (97 + n mod 26)])"
  by (subst label_seq.simps) simp

lemma label_seq_letters: "\<forall>c \<in> set (label_seq n). (of_char c :: int) \<le> 122"
proof (induction n rule: label_seq.induct)
  case (1 n)
  show ?case
  proof (cases "n < 26")
    case True
    then show ?thesis
      by (subst label_seq_unfold) (simp add: letter_code del: of_char_of)
  next
    case False
    have "n mod 26 < 26" by simp
    then have "(of_char (char_of (97 + n mod 26 :: nat)) :: int) \<le> 122"
      by (simp add: letter_code del: of_char_of)
    with False 1 show ?thesis
      by (subst label_seq_unfold) (simp del: of_char_of)
  qed
qed

lemma char_of_97: "char_of (97 :: nat) = CHR ''a''"
  by (simp add: char_of_eq_iff)

lemma label_seq_0: "label_seq 0 = ''a''"
  by (subst label_seq_unfold) (simp add: char_of_97)

lemma NextLabel_label_seq: "NextLabel (label_seq n) = label_seq (Suc n)"
proof (induction n rule: label_seq.induct)
  case (1 n)
  show ?case
  proof (cases "n < 26")
    case small: True
    have n: "label_seq n = [] @ [char_of (97 + n :: nat)]"
      using small by (subst label_seq_unfold) simp
    show ?thesis
    proof (cases "Suc n < 26")
      case True
      have "(of_char (char_of (97 + n :: nat)) :: int) < 122"
        using True by (simp add: letter_code del: of_char_of)
      then have "NextLabel (label_seq n) =
          [] @ [char_of ((of_char (char_of (97 + n :: nat)) :: int) + 1)]"
        unfolding n by (intro NextLabel_snoc_carry) simp
      also have "\<dots> = [char_of (97 + Suc n :: nat)]"
        using True by (simp only: letter_succ append_Nil)
      also have "\<dots> = label_seq (Suc n)"
        using True by (subst label_seq_unfold) simp
      finally show ?thesis .
    next
      case False
      with small have n25: "n = 25" by simp
      have "(of_char (char_of (97 + n :: nat)) :: int) = 122"
        using letter_code [OF small] n25 by simp
      then have "NextLabel (label_seq n) = NextLabel [] @ ''a''"
        unfolding n by (rule NextLabel_snoc_wrap)
      also have "\<dots> = ''aa''" by (simp add: NextLabel_Nil)
      also have "\<dots> = label_seq (Suc n)"
        unfolding n25 by (subst label_seq_unfold) (simp add: label_seq_0 char_of_97)
      finally show ?thesis .
    qed
  next
    case big: False
    define q where "q = n div 26 - 1"
    define r where "r = n mod 26"
    have r: "r < 26" unfolding r_def by simp
    have q1: "n div 26 = Suc q" using big unfolding q_def by (simp add: Suc_le_eq div_greater_zero_iff)
    have n: "label_seq n = label_seq q @ [char_of (97 + r :: nat)]"
      using big unfolding q_def r_def by (subst label_seq_unfold) simp
    have IH: "NextLabel (label_seq q) = label_seq (Suc q)"
      using 1 big unfolding q_def by simp
    have nqr: "n = 26 * Suc q + r"
      unfolding r_def q1 [symmetric] by simp
    show ?thesis
    proof (cases "Suc r < 26")
      case True
      have "(of_char (char_of (97 + r :: nat)) :: int) < 122"
        using True by (simp add: letter_code del: of_char_of)
      with label_seq_letters [of q] have "NextLabel (label_seq n) =
          label_seq q @ [char_of ((of_char (char_of (97 + r :: nat)) :: int) + 1)]"
        unfolding n by (intro NextLabel_snoc_carry)
      also have "\<dots> = label_seq q @ [char_of (97 + Suc r :: nat)]"
        using True by (simp only: letter_succ)
      also have "\<dots> = label_seq (Suc n)"
      proof -
        have e: "Suc n = Suc r + 26 * Suc q" using nqr by simp
        have "Suc n div 26 = Suc q + Suc r div 26"
          unfolding e by (rule div_mult_self2) simp
        moreover have "Suc n mod 26 = Suc r mod 26"
          unfolding e by (rule mod_mult_self2)
        moreover have "\<not> Suc n < 26" using e by simp
        ultimately have "Suc n div 26 = Suc q" and "Suc n mod 26 = Suc r" and "\<not> Suc n < 26"
          using True by simp_all
        then show ?thesis by (subst (2) label_seq_unfold) simp
      qed
      finally show ?thesis .
    next
      case False
      with r have r25: "r = 25" by simp
      have "(of_char (char_of (97 + r :: nat)) :: int) = 122"
        using letter_code [OF r] r25 by simp
      then have "NextLabel (label_seq n) = NextLabel (label_seq q) @ ''a''"
        unfolding n by (rule NextLabel_snoc_wrap)
      also have "\<dots> = label_seq (Suc q) @ ''a''" by (simp add: IH)
      also have "\<dots> = label_seq (Suc n)"
      proof -
        have e: "Suc n = 0 + 26 * Suc (Suc q)" using nqr r25 by simp
        have "Suc n div 26 = Suc (Suc q) + 0 div 26"
          unfolding e by (rule div_mult_self2) simp
        moreover have "Suc n mod 26 = 0 mod 26"
          unfolding e by (rule mod_mult_self2)
        moreover have "\<not> Suc n < 26" using e by simp
        ultimately have "Suc n div 26 = Suc (Suc q)" and "Suc n mod 26 = 0" and "\<not> Suc n < 26"
          by simp_all
        then show ?thesis by (subst (2) label_seq_unfold) (simp add: char_of_97)
      qed
      finally show ?thesis .
    qed
  qed
qed

lemma funpow_NextLabel: "(NextLabel ^^ n) ''a'' = label_seq n"
  by (induction n) (simp_all add: label_seq_0 NextLabel_label_seq)

lemma label_seq_nonempty: "label_seq n \<noteq> []"
  by (subst label_seq_unfold) simp

lemma letter_inj:
  assumes "j < 26" and "k < 26" and "char_of (97 + j :: nat) = char_of (97 + k :: nat)"
  shows "j = k"
proof -
  from assms(3) have "(97 + j) mod 256 = (97 + k) mod 256" by simp
  with assms(1,2) show ?thesis by simp
qed

lemma label_seq_inj: "label_seq m = label_seq n \<Longrightarrow> m = n"
proof (induction m arbitrary: n rule: label_seq.induct)
  case (1 m)
  show ?case
  proof (cases "m < 26")
    case msmall: True
    then have m: "label_seq m = [char_of (97 + m)]" by (subst label_seq_unfold) simp
    show ?thesis
    proof (cases "n < 26")
      case True
      then have "label_seq n = [char_of (97 + n)]" by (subst label_seq_unfold) simp
      with m "1.prems" have "char_of (97 + m :: nat) = char_of (97 + n :: nat)" by simp
      with msmall True show ?thesis by (intro letter_inj)
    next
      case False
      then have "label_seq n = label_seq (n div 26 - 1) @ [char_of (97 + n mod 26)]"
        by (subst label_seq_unfold) simp
      with m "1.prems" label_seq_nonempty [of "n div 26 - 1"] show ?thesis by simp
    qed
  next
    case mbig: False
    then have m: "label_seq m = label_seq (m div 26 - 1) @ [char_of (97 + m mod 26)]"
      by (subst label_seq_unfold) simp
    show ?thesis
    proof (cases "n < 26")
      case True
      then have "label_seq n = [char_of (97 + n)]" by (subst label_seq_unfold) simp
      with m "1.prems" label_seq_nonempty [of "m div 26 - 1"] show ?thesis by simp
    next
      case False
      then have n: "label_seq n = label_seq (n div 26 - 1) @ [char_of (97 + n mod 26)]"
        by (subst label_seq_unfold) simp
      from m n "1.prems" have
        pre: "label_seq (m div 26 - 1) = label_seq (n div 26 - 1)" and
        lst: "char_of (97 + m mod 26 :: nat) = char_of (97 + n mod 26 :: nat)"
        by simp_all
      from "1.IH" [OF mbig pre] have "m div 26 - 1 = n div 26 - 1" .
      moreover have "0 < m div 26" and "0 < n div 26"
        using mbig False by (simp_all add: div_greater_zero_iff)
      ultimately have d: "m div 26 = n div 26" by linarith
      have md: "m mod 26 = n mod 26"
        using lst by (intro letter_inj) simp_all
      have "m = m div 26 * 26 + m mod 26" by (rule div_mult_mod_eq [symmetric])
      also have "\<dots> = n div 26 * 26 + n mod 26" by (simp only: d md)
      also have "\<dots> = n" by (rule div_mult_mod_eq)
      finally show ?thesis .
    qed
  qed
qed

lemma unat_of_nat32: "i < 2 ^ 32 \<Longrightarrow> unat (of_nat i :: uint32) = i"
  by (simp add: unat_of_nat)

lemma MakeLabels_loop_lookup:
  assumes "i + length rest \<le> 2 ^ 32"
  shows "MakeLabels_loop rest i labels label w =
     (if i \<le> unat w \<and> unat w < i + length rest \<and> Op (rest ! (unat w - i)) = OP_JUMP_TGT
      then Some ((NextLabel ^^ target_rank rest (unat w - i)) label)
      else labels w)"
  using assms
proof (induction rest arbitrary: i labels label)
  case Nil
  show ?case by auto
next
  case (Cons inst rest)
  have i32: "i < 2 ^ 32" and Si: "Suc i + length rest \<le> 2 ^ 32" using Cons.prems by simp_all
  have key: "of_nat i = w \<longleftrightarrow> unat w = i"
    using unat_of_nat32 [OF i32] by auto
  note IH = Cons.IH [OF Si]
  consider (before) "unat w < i" | (here) "unat w = i" | (after) "i < unat w"
    by linarith
  then show ?case
  proof cases
    case before
    then have ne: "w \<noteq> of_nat i" using key by auto
    from before have c1: "\<not> Suc i \<le> unat w" and c2: "\<not> i \<le> unat w" by simp_all
    show ?thesis
      by (simp add: IH c1 c2 ne)
  next
    case here
    then have eq: "w = of_nat i" using key by auto
    have c1: "\<not> Suc i \<le> unat w" using here by simp
    have r0: "target_rank (inst # rest) 0 = 0" by (simp add: target_rank_def)
    have lk: "(labels(of_nat i \<mapsto> label)) w = Some label" using eq by simp
    show ?thesis
      using c1 lk r0 here by (simp add: IH)
  next
    case after
    then obtain m where m: "unat w - i = Suc m" and m': "unat w - Suc i = m"
      by (cases "unat w - i") auto
    from after have ne: "w \<noteq> of_nat i" using key by auto
    have c1: "Suc i \<le> unat w" and c2: "i \<le> unat w" using after by simp_all
    have rank: "target_rank (inst # rest) (Suc m) =
        (if Op inst = OP_JUMP_TGT then Suc (target_rank rest m) else target_rank rest m)"
      by (simp add: target_rank_def)
    show ?thesis
      by (simp add: IH c1 c2 ne m m' rank funpow_swap1)
  qed
qed

lemma MakeLabels_lookup:
  assumes "length prog \<le> 2 ^ 32"
  shows "MakeLabels prog w =
     (if unat w < length prog \<and> Op (prog ! unat w) = OP_JUMP_TGT
      then Some (label_seq (target_rank prog (unat w))) else None)"
  using MakeLabels_loop_lookup [of 0 prog Map.empty "''a''" w] assms
  by (simp add: MakeLabels_def funpow_NextLabel)

lemma target_rank_less:
  assumes "j < j'" and "j < length prog" and "Op (prog ! j) = OP_JUMP_TGT"
  shows "target_rank prog j < target_rank prog j'"
proof -
  have "take j' prog = take (Suc j) prog @ take (j' - Suc j) (drop (Suc j) prog)"
    using assms(1) take_add [of "Suc j" "j' - Suc j" prog] by simp
  moreover have "take (Suc j) prog = take j prog @ [prog ! j]"
    using assms(2) by (rule take_Suc_conv_app_nth)
  ultimately show ?thesis
    using assms(3) by (simp add: target_rank_def)
qed

lemma NextLabel_a: "NextLabel ''a'' = ''b''"
  by (simp add: NextLabel_def NextLabel_step_def Let_def char_of_eq_iff)

lemma label_seq_examples:
  "label_seq 0 = ''a''" "label_seq 1 = ''b''" "label_seq 25 = ''z''" "label_seq 26 = ''aa''"
  "label_seq 27 = ''ab''" "label_seq 51 = ''az''" "label_seq 52 = ''ba''"
  "label_seq 701 = ''zz''" "label_seq 702 = ''aaa''"
  by (simp_all add: label_seq_unfold char_of_eq_iff)

text \<open>
  Claim C3, as amended. For every instruction sequence of at most \<open>2 ^ 32\<close> slots,
  \<open>MakeLabels\<close> returns a map whose keys are exactly the indices of the slots whose opcode
  field is \<open>OP_JUMP_TGT\<close>; the slot of rank \<open>r\<close> among them, in increasing index order,
  gets the \<open>r\<close>-th label of the base-26 sequence \<open>a, b, \<dots>, z, aa, \<dots>\<close>; distinct slots get
  distinct labels. The jump instructions and their arguments play no part: the argument of
  a jump is a key of the map exactly when it is the index of such a slot.
\<close>

theorem MakeLabels_target_slots:
  assumes "length prog \<le> 2 ^ 32"
  shows "(\<forall>w. MakeLabels prog w =
            (if unat w < length prog \<and> Op (prog ! unat w) = OP_JUMP_TGT
             then Some (label_seq (target_rank prog (unat w))) else None)) \<and>
         (\<forall>w w'. MakeLabels prog w \<noteq> None \<and> MakeLabels prog w = MakeLabels prog w' \<longrightarrow> w = w') \<and>
         (\<forall>w w' :: uint32. unat w < unat w' \<and> MakeLabels prog w \<noteq> None \<longrightarrow>
            target_rank prog (unat w) < target_rank prog (unat w'))"
proof (intro conjI allI impI)
  fix w
  show "MakeLabels prog w =
            (if unat w < length prog \<and> Op (prog ! unat w) = OP_JUMP_TGT
             then Some (label_seq (target_rank prog (unat w))) else None)"
    using assms by (rule MakeLabels_lookup)
next
  fix w w' :: uint32
  assume a: "unat w < unat w' \<and> MakeLabels prog w \<noteq> None"
  then have "unat w < length prog" and "Op (prog ! unat w) = OP_JUMP_TGT"
    unfolding MakeLabels_lookup [OF assms] by (auto split: if_splits)
  with a show "target_rank prog (unat w) < target_rank prog (unat w')"
    by (intro target_rank_less) simp_all
next
  fix w w' :: uint32
  assume a: "MakeLabels prog w \<noteq> None \<and> MakeLabels prog w = MakeLabels prog w'"
  then have tw: "unat w < length prog" "Op (prog ! unat w) = OP_JUMP_TGT"
    and tw': "unat w' < length prog" "Op (prog ! unat w') = OP_JUMP_TGT"
    and eq: "label_seq (target_rank prog (unat w)) = label_seq (target_rank prog (unat w'))"
    unfolding MakeLabels_lookup [OF assms] by (auto split: if_splits)
  from eq have r: "target_rank prog (unat w) = target_rank prog (unat w')"
    by (rule label_seq_inj)
  have "unat w = unat w'"
  proof (rule ccontr)
    assume "unat w \<noteq> unat w'"
    then consider "unat w < unat w'" | "unat w' < unat w" by linarith
    then show False
    proof cases
      case 1
      from target_rank_less [OF 1 tw] r show False by simp
    next
      case 2
      from target_rank_less [OF 2 tw'] r show False by simp
    qed
  qed
  then show "w = w'" by (simp add: word_unat_eq_iff)
qed

lemmas MakeLabels_eval = MakeLabels_def op_defs NextLabel_a

theorem MakeLabels_target_slots_witness:
  "length [\<lparr>Comment = 0, Op = 13, Mode = 0, Arg = 0\<rparr>, \<lparr>Comment = 0, Op = 0, Mode = 0, Arg = 0\<rparr>,
           \<lparr>Comment = 0, Op = 13, Mode = 0, Arg = 0\<rparr>, \<lparr>Comment = 0, Op = 8, Mode = 0, Arg = 0\<rparr>]
     \<le> (2 :: nat) ^ 32 \<and>
   MakeLabels [\<lparr>Comment = 0, Op = 13, Mode = 0, Arg = 0\<rparr>, \<lparr>Comment = 0, Op = 0, Mode = 0, Arg = 0\<rparr>,
           \<lparr>Comment = 0, Op = 13, Mode = 0, Arg = 0\<rparr>, \<lparr>Comment = 0, Op = 8, Mode = 0, Arg = 0\<rparr>] 0 = Some ''a'' \<and>
   MakeLabels [\<lparr>Comment = 0, Op = 13, Mode = 0, Arg = 0\<rparr>, \<lparr>Comment = 0, Op = 0, Mode = 0, Arg = 0\<rparr>,
           \<lparr>Comment = 0, Op = 13, Mode = 0, Arg = 0\<rparr>, \<lparr>Comment = 0, Op = 8, Mode = 0, Arg = 0\<rparr>] 2 = Some ''b'' \<and>
   MakeLabels [\<lparr>Comment = 0, Op = 13, Mode = 0, Arg = 0\<rparr>, \<lparr>Comment = 0, Op = 0, Mode = 0, Arg = 0\<rparr>,
           \<lparr>Comment = 0, Op = 13, Mode = 0, Arg = 0\<rparr>, \<lparr>Comment = 0, Op = 8, Mode = 0, Arg = 0\<rparr>] 1 = None"
proof -
  let ?P = "[\<lparr>Comment = 0, Op = 13, Mode = 0, Arg = 0\<rparr>, \<lparr>Comment = 0, Op = 0, Mode = 0, Arg = 0\<rparr>,
           \<lparr>Comment = 0, Op = 13, Mode = 0, Arg = 0\<rparr>, \<lparr>Comment = 0, Op = 8, Mode = 0, Arg = 0 :: uint32\<rparr>]"
  have h: "length ?P \<le> (2 :: nat) ^ 32" by simp
  have e: "MakeLabels ?P 0 = Some ''a'' \<and> MakeLabels ?P 2 = Some ''b'' \<and> MakeLabels ?P 1 = None"
    by (simp add: MakeLabels_eval)
  from MakeLabels_target_slots [OF h] h e show ?thesis by blast
qed

text \<open>
  Two jumps whose targets are discovered in the order 3, 2: the program labels slot 3 with
  \<open>b\<close>, the pre-pass of the specification with \<open>a\<close>. And a jump to a slot that is not a
  jump target gets no label from the program.
\<close>

theorem MakeLabels_discovery_order_counterexample:
  "MakeLabels [\<lparr>Comment = 0, Op = 8, Mode = 0, Arg = 3\<rparr>, \<lparr>Comment = 0, Op = 8, Mode = 0, Arg = 2\<rparr>,
           \<lparr>Comment = 0, Op = 13, Mode = 0, Arg = 0\<rparr>, \<lparr>Comment = 0, Op = 13, Mode = 0, Arg = 0\<rparr>] 3 = Some ''b'' \<and>
   spec_label_prepass [\<lparr>Comment = 0, Op = 8, Mode = 0, Arg = 3\<rparr>, \<lparr>Comment = 0, Op = 8, Mode = 0, Arg = 2\<rparr>,
           \<lparr>Comment = 0, Op = 13, Mode = 0, Arg = 0\<rparr>, \<lparr>Comment = 0, Op = 13, Mode = 0, Arg = 0\<rparr>] 3 = Some ''a'' \<and>
   MakeLabels [\<lparr>Comment = 0, Op = 8, Mode = 0, Arg = 0\<rparr>, \<lparr>Comment = 0, Op = 0, Mode = 0, Arg = 0\<rparr>] 0 = None \<and>
   spec_label_prepass [\<lparr>Comment = 0, Op = 8, Mode = 0, Arg = 0\<rparr>, \<lparr>Comment = 0, Op = 0, Mode = 0, Arg = 0\<rparr>] 0 = Some ''a''"
  by (simp add: MakeLabels_eval spec_label_prepass_def InstructionsWithLabel_Member_def
      InstructionsWithLabel_def)

section \<open>Properties of the disassembler\<close>

lemma store_Some: "store xs i v = Some ys \<longleftrightarrow> i < length xs \<and> ys = xs[i := v]"
  by (auto simp: store_def)

lemma store_None: "store xs i v = None \<longleftrightarrow> length xs \<le> i"
  by (auto simp: store_def)

lemma Disassemble_step_length:
  "Disassemble_step labels i inst (d, n) = Some (d', n') \<Longrightarrow> length d' = length d"
  by (auto simp: Disassemble_step_def Let_def store_Some split: if_splits option.splits)

lemma Disassemble_step_None:
  "i < length d \<Longrightarrow>
   Disassemble_step labels i inst (d, n) = None \<longleftrightarrow> jump_slot inst \<and> length d \<le> unat (Arg inst)"
  by (auto simp: Disassemble_step_def Let_def store_def jump_slot_def word_gt_0
      InstructionsWithLabel_Member_def InstructionsWithLabel_def op_defs split: if_splits option.splits)

lemma Disassemble_loop_length:
  "Disassemble_loop labels rest i (d, n) = Some (d', n') \<Longrightarrow> length d' = length d"
proof (induction rest arbitrary: i d n)
  case Nil
  then show ?case by simp
next
  case (Cons inst rest)
  from Cons.prems obtain d1 n1 where
    st: "Disassemble_step labels i inst (d, n) = Some (d1, n1)" and
    lp: "Disassemble_loop labels rest (i + 1) (d1, n1) = Some (d', n')"
    by (auto split: option.splits)
  from Cons.IH [OF lp] Disassemble_step_length [OF st] show ?case by simp
qed

lemma Disassemble_loop_None:
  "i + length rest \<le> length d \<Longrightarrow>
   Disassemble_loop labels rest i (d, n) = None \<longleftrightarrow>
     (\<exists>inst \<in> set rest. jump_slot inst \<and> length d \<le> unat (Arg inst))"
proof (induction rest arbitrary: i d n)
  case Nil
  then show ?case by simp
next
  case (Cons inst rest)
  then have i: "i < length d" by simp
  show ?case
  proof (cases "Disassemble_step labels i inst (d, n)")
    case None
    with Disassemble_step_None [OF i, of labels inst n] show ?thesis by auto
  next
    case (Some st)
    obtain d1 n1 where st: "st = (d1, n1)" by (cases st)
    from Some st have len: "length d1 = length d" by (auto dest: Disassemble_step_length)
    from Some Disassemble_step_None [OF i, of labels inst n]
    have nj: "\<not> (jump_slot inst \<and> length d \<le> unat (Arg inst))" by simp
    have "i + 1 + length rest \<le> length d1" using Cons.prems len by simp
    from Cons.IH [OF this, of n1] Some st nj len show ?thesis by auto
  qed
qed

lemma Disassemble_loop_append:
  "Disassemble_loop labels (xs @ ys) i st =
     (case Disassemble_loop labels xs i st of
        None \<Rightarrow> None
      | Some st' \<Rightarrow> Disassemble_loop labels ys (i + length xs) st')"
  by (induction xs arbitrary: i st) (auto split: option.splits)

lemma Disassemble_None:
  "Disassemble prog = None \<longleftrightarrow>
     (\<exists>inst \<in> set prog. jump_slot inst \<and> length prog \<le> unat (Arg inst))"
  using Disassemble_loop_None [of 0 prog "replicate (length prog) None" "MakeLabels prog" 1]
  by (simp add: Disassemble_def Disassemble_init_def)

lemma Disassemble_Some_length:
  "Disassemble prog = Some out \<Longrightarrow> length out = length prog"
  by (auto simp: Disassemble_def Disassemble_init_def dest: Disassemble_loop_length)

lemmas Disassemble_eval = Disassemble_def Disassemble_init_def MakeLabels_def Disassemble_step_def
  store_def InstructionsWithLabel_Member_def InstructionsWithLabel_def
  InstructionsWithArg_Member_def InstructionsWithArg_def
  InstrunctionMnemonics_Member_def InstrunctionMnemonics_def op_defs Let_def
  NextLabel_def NextLabel_step_def jump_slot_def

text \<open>
  Claim C9. Every indexed store of \<open>Disassemble\<close> is within bounds, and the function
  returns, when every jump-family slot (comment flag zero, opcode JUMP, JUMPZ or JUMPN) has
  an argument below the length of the sequence; and whenever some such slot has an argument
  at or beyond the length, the store of the jump target at that index is out of range and
  the function panics.
\<close>

theorem Disassemble_in_bounds:
  "((\<forall>inst \<in> set prog. jump_slot inst \<longrightarrow> unat (Arg inst) < length prog) \<longrightarrow>
      (\<exists>out. Disassemble prog = Some out)) \<and>
   ((\<exists>inst \<in> set prog. jump_slot inst \<and> length prog \<le> unat (Arg inst)) \<longrightarrow>
      Disassemble prog = None)"
proof (intro conjI impI)
  assume "\<forall>inst \<in> set prog. jump_slot inst \<longrightarrow> unat (Arg inst) < length prog"
  then have "Disassemble prog \<noteq> None"
    unfolding Disassemble_None by (auto simp: not_le)
  then show "\<exists>out. Disassemble prog = Some out" by blast
next
  assume "\<exists>inst \<in> set prog. jump_slot inst \<and> length prog \<le> unat (Arg inst)"
  then show "Disassemble prog = None" unfolding Disassemble_None .
qed

theorem Disassemble_in_bounds_witness:
  "Disassemble
     [\<lparr>Comment = 0, Op = 8, Mode = 0, Arg = 2\<rparr>, \<lparr>Comment = 0, Op = 1, Mode = 0, Arg = 0\<rparr>,
      \<lparr>Comment = 0, Op = 13, Mode = 0, Arg = 0\<rparr>] \<noteq> None \<and>
   jump_slot \<lparr>Comment = 0, Op = 9, Mode = 0, Arg = 7\<rparr> \<and>
   Disassemble [\<lparr>Comment = 0, Op = 1, Mode = 0, Arg = 0\<rparr>, \<lparr>Comment = 0, Op = 9, Mode = 0, Arg = 7\<rparr>] = None"
proof -
  let ?P = "[\<lparr>Comment = 0, Op = 8, Mode = 0, Arg = 2\<rparr>, \<lparr>Comment = 0, Op = 1, Mode = 0, Arg = 0\<rparr>,
      \<lparr>Comment = 0, Op = 13, Mode = 0, Arg = 0 :: uint32\<rparr>]"
  let ?Q = "[\<lparr>Comment = 0, Op = 1, Mode = 0, Arg = 0\<rparr>, \<lparr>Comment = 0, Op = 9, Mode = 0, Arg = 7 :: uint32\<rparr>]"
  have j: "jump_slot \<lparr>Comment = 0, Op = 9, Mode = 0, Arg = 7\<rparr>"
    by (simp add: jump_slot_def InstructionsWithLabel_Member_def InstructionsWithLabel_def op_defs)
  have inb: "\<forall>inst \<in> set ?P. jump_slot inst \<longrightarrow> unat (Arg inst) < length ?P"
    by (simp add: jump_slot_def InstructionsWithLabel_Member_def InstructionsWithLabel_def op_defs)
  have oob: "\<exists>inst \<in> set ?Q. jump_slot inst \<and> length ?Q \<le> unat (Arg inst)"
    using j by simp
  from Disassemble_in_bounds [of ?P] inb have "Disassemble ?P \<noteq> None" by auto
  moreover from Disassemble_in_bounds [of ?Q] oob have "Disassemble ?Q = None" by blast
  ultimately show ?thesis using j by blast
qed

text \<open>
  Claim C6, as amended. Whenever \<open>Disassemble\<close> returns, its output has the length of its
  input; and it does return, with every jump argument a valid index into the output, for
  every input whose jump-family slots all have an argument below the length of the input.
\<close>

theorem Disassemble_length:
  "(Disassemble prog = Some out \<longrightarrow> length out = length prog) \<and>
   ((\<forall>inst \<in> set prog. jump_slot inst \<longrightarrow> unat (Arg inst) < length prog) \<longrightarrow>
      (\<exists>out'. Disassemble prog = Some out' \<and> length out' = length prog \<and>
         (\<forall>inst \<in> set prog. jump_slot inst \<longrightarrow> unat (Arg inst) < length out')))"
proof (intro conjI impI)
  assume "Disassemble prog = Some out"
  then show "length out = length prog" by (rule Disassemble_Some_length)
next
  assume inb: "\<forall>inst \<in> set prog. jump_slot inst \<longrightarrow> unat (Arg inst) < length prog"
  then have "Disassemble prog \<noteq> None"
    unfolding Disassemble_None by (auto simp: not_le)
  then obtain out' where out': "Disassemble prog = Some out'" by blast
  then have "length out' = length prog" by (rule Disassemble_Some_length)
  with out' inb show "\<exists>out'. Disassemble prog = Some out' \<and> length out' = length prog \<and>
         (\<forall>inst \<in> set prog. jump_slot inst \<longrightarrow> unat (Arg inst) < length out')"
    by simp
qed

theorem Disassemble_length_witness:
  "Disassemble [\<lparr>Comment = 0, Op = 0, Mode = 0, Arg = 0\<rparr>, \<lparr>Comment = 0, Op = 9, Mode = 0, Arg = 2\<rparr>,
      \<lparr>Comment = 0, Op = 13, Mode = 0, Arg = 0\<rparr>] =
     Some [Some (DisassembleInstruction 1 0), Some (DisassembleJumpInstruction 2 9 ''a'' 2),
           Some (DisassembleJumpTarget ''a'' 1)] \<and>
   length [Some (DisassembleInstruction 1 0), Some (DisassembleJumpInstruction 2 9 ''a'' 2),
           Some (DisassembleJumpTarget ''a'' 1)] =
   length [\<lparr>Comment = 0, Op = 0, Mode = 0, Arg = 0\<rparr>, \<lparr>Comment = 0, Op = 9, Mode = 0, Arg = 2\<rparr>,
      \<lparr>Comment = 0, Op = 13, Mode = 0, Arg = 0 :: uint32\<rparr>]"
proof -
  let ?P = "[\<lparr>Comment = 0, Op = 0, Mode = 0, Arg = 0\<rparr>, \<lparr>Comment = 0, Op = 9, Mode = 0, Arg = 2\<rparr>,
      \<lparr>Comment = 0, Op = 13, Mode = 0, Arg = 0 :: uint32\<rparr>]"
  let ?O = "[Some (DisassembleInstruction 1 0), Some (DisassembleJumpInstruction 2 9 ''a'' 2),
           Some (DisassembleJumpTarget ''a'' 1)]"
  have inb: "\<forall>inst \<in> set ?P. jump_slot inst \<longrightarrow> unat (Arg inst) < length ?P"
    by (simp add: jump_slot_def InstructionsWithLabel_Member_def InstructionsWithLabel_def op_defs)
  have ev: "Disassemble ?P = Some ?O"
    by (simp add: Disassemble_eval)
  from Disassemble_length [of ?P ?O] ev inb have "length ?O = length ?P" by blast
  with ev show ?thesis by blast
qed

text \<open>A single jump whose argument is 1, the length of the sequence: no output at all.\<close>

theorem Disassemble_length_counterexample:
  "Disassemble [\<lparr>Comment = 0, Op = 8, Mode = 0, Arg = 1\<rparr>] = None"
  by (simp add: Disassemble_eval)

lemma Disassemble_after_Suc:
  assumes "k < length prog"
  shows "Disassemble_after prog (Suc k) =
     (case Disassemble_after prog k of
        None \<Rightarrow> None
      | Some st \<Rightarrow> Disassemble_step (MakeLabels prog) k (prog ! k) st)"
proof -
  have "take (Suc k) prog = take k prog @ [prog ! k]"
    using assms by (rule take_Suc_conv_app_nth)
  then show ?thesis
    using assms by (simp add: Disassemble_after_def Disassemble_loop_append split: option.splits)
qed

lemma Disassemble_after_all:
  "Disassemble prog = map_option fst (Disassemble_after prog (length prog))"
  by (simp add: Disassemble_def Disassemble_after_def)

lemma Disassemble_after_length:
  "Disassemble_after prog k = Some (d, n) \<Longrightarrow> length d = length prog"
  by (auto simp: Disassemble_after_def Disassemble_init_def dest: Disassemble_loop_length)

lemma Disassemble_after_drop:
  assumes "k \<le> length prog"
  shows "Disassemble_loop (MakeLabels prog) prog 0 (Disassemble_init prog) =
     (case Disassemble_after prog k of
        None \<Rightarrow> None
      | Some st \<Rightarrow> Disassemble_loop (MakeLabels prog) (drop k prog) k st)"
proof -
  have "length (take k prog) = k" using assms by simp
  with Disassemble_loop_append [of "MakeLabels prog" "take k prog" "drop k prog" 0 "Disassemble_init prog"]
  show ?thesis
    by (simp add: Disassemble_after_def split: option.splits)
qed

lemma Disassemble_step_comment:
  assumes "Comment inst \<noteq> 0" and "i < length d"
  shows "Disassemble_step labels i inst (d, n) = Some (d[i := Some (DisassembleComment (Op inst))], n)"
  using assms by (simp add: Disassemble_step_def store_def word_gt_0)

lemma Disassemble_step_other:
  assumes "Disassemble_step labels j inst (d, n) = Some (d', n')"
    and "i \<noteq> j" and "\<not> (jump_slot inst \<and> unat (Arg inst) = i)"
  shows "d' ! i = d ! i"
  using assms
  by (auto simp: Disassemble_step_def Let_def store_Some jump_slot_def word_gt_0
      split: if_splits option.splits)

lemma Disassemble_loop_other:
  assumes "Disassemble_loop labels rest j (d, n) = Some (d', n')"
    and "i < j" and "\<forall>inst \<in> set rest. jump_slot inst \<longrightarrow> unat (Arg inst) \<noteq> i"
  shows "d' ! i = d ! i"
  using assms
proof (induction rest arbitrary: j d n)
  case Nil
  then show ?case by simp
next
  case (Cons inst rest)
  from Cons.prems(1) obtain d1 n1 where
    st: "Disassemble_step labels j inst (d, n) = Some (d1, n1)" and
    lp: "Disassemble_loop labels rest (j + 1) (d1, n1) = Some (d', n')"
    by (auto split: option.splits)
  have "d1 ! i = d ! i"
    using Disassemble_step_other [OF st, of i] Cons.prems(2,3) by auto
  moreover have "d' ! i = d1 ! i"
    using Cons.IH [OF lp] Cons.prems(2,3) by simp
  ultimately show ?case by simp
qed

lemma Disassemble_after_None:
  assumes "k \<le> length prog"
  shows "Disassemble_after prog k = None \<longleftrightarrow>
     (\<exists>inst \<in> set (take k prog). jump_slot inst \<and> length prog \<le> unat (Arg inst))"
  using assms
    Disassemble_loop_None [of 0 "take k prog" "replicate (length prog) None" "MakeLabels prog" 1]
  by (simp add: Disassemble_after_def Disassemble_init_def)

lemma Disassemble_comment_iteration:
  assumes "i < length prog" and "Comment (prog ! i) \<noteq> 0"
    and "Disassemble_after prog i = Some (d, n)"
  shows "Disassemble_after prog (Suc i) =
           Some (d[i := Some (DisassembleComment (Op (prog ! i)))], n)"
proof -
  from assms(3) have "i < length d" using assms(1) by (simp add: Disassemble_after_length)
  with assms show ?thesis
    by (simp add: Disassemble_after_Suc Disassemble_step_comment)
qed

lemma Disassemble_comment_final:
  assumes "i < length prog" and "Comment (prog ! i) \<noteq> 0"
    and "Disassemble prog = Some out"
    and later: "\<forall>inst \<in> set (drop (Suc i) prog). jump_slot inst \<longrightarrow> unat (Arg inst) \<noteq> i"
  shows "out ! i = Some (DisassembleComment (Op (prog ! i)))"
proof -
  from assms(3) obtain n' where whole:
    "Disassemble_loop (MakeLabels prog) prog 0 (Disassemble_init prog) = Some (out, n')"
    by (auto simp: Disassemble_def)
  have Si: "Suc i \<le> length prog" using assms(1) by simp
  from whole Disassemble_after_drop [OF Si] obtain d1 n1 where
    pre: "Disassemble_after prog (Suc i) = Some (d1, n1)" and
    rest: "Disassemble_loop (MakeLabels prog) (drop (Suc i) prog) (Suc i) (d1, n1) = Some (out, n')"
    by (auto split: option.splits)
  from pre obtain d0 n0 where
    pre0: "Disassemble_after prog i = Some (d0, n0)"
    using assms(1) by (auto simp: Disassemble_after_Suc split: option.splits)
  then have len0: "i < length d0" using assms(1) by (simp add: Disassemble_after_length)
  from pre Disassemble_comment_iteration [OF assms(1,2) pre0]
  have "d1 = d0[i := Some (DisassembleComment (Op (prog ! i)))]" by simp
  with len0 have "d1 ! i = Some (DisassembleComment (Op (prog ! i)))" by simp
  moreover have "out ! i = d1 ! i"
    using Disassemble_loop_other [OF rest, of i] later by simp
  ultimately show ?thesis by simp
qed

text \<open>
  Claim C7, as amended. Let slot \<open>i\<close> have a non-zero comment flag, whatever its other
  fields. If the loop of \<open>Disassemble\<close> reaches slot \<open>i\<close>, which it does when no jump-family
  slot before \<open>i\<close> has an argument at or beyond the length of the sequence, the iteration
  at \<open>i\<close> stores the entry \<open>Comment\<close> with index the opcode field of the slot at position
  \<open>i\<close> of the output and leaves the line counter as it was. The entry is at position \<open>i\<close>
  of the output \<open>Disassemble\<close> returns whenever no jump-family slot after \<open>i\<close> has \<open>i\<close> as
  its argument; and \<open>Disassemble\<close> does return such an output when, in addition, every jump
  argument is below the length of the sequence.
\<close>

theorem Disassemble_comment_slot:
  assumes "i < length prog" and "Comment (prog ! i) \<noteq> 0"
  shows "(Disassemble_after prog i = Some (d, n) \<longrightarrow>
            Disassemble_after prog (Suc i) =
              Some (d[i := Some (DisassembleComment (Op (prog ! i)))], n)) \<and>
         ((\<forall>inst \<in> set (take i prog). jump_slot inst \<longrightarrow> unat (Arg inst) < length prog) \<longrightarrow>
            (\<exists>d' n'. Disassemble_after prog i = Some (d', n') \<and>
               Disassemble_after prog (Suc i) =
                 Some (d'[i := Some (DisassembleComment (Op (prog ! i)))], n'))) \<and>
         (Disassemble prog = Some out \<and>
          (\<forall>inst \<in> set (drop (Suc i) prog). jump_slot inst \<longrightarrow> unat (Arg inst) \<noteq> i) \<longrightarrow>
            out ! i = Some (DisassembleComment (Op (prog ! i)))) \<and>
         ((\<forall>inst \<in> set prog. jump_slot inst \<longrightarrow> unat (Arg inst) < length prog) \<and>
          (\<forall>inst \<in> set (drop (Suc i) prog). jump_slot inst \<longrightarrow> unat (Arg inst) \<noteq> i) \<longrightarrow>
            (\<exists>out'. Disassemble prog = Some out' \<and>
               out' ! i = Some (DisassembleComment (Op (prog ! i)))))"
proof (intro conjI impI)
  assume "Disassemble_after prog i = Some (d, n)"
  with assms show "Disassemble_after prog (Suc i) =
      Some (d[i := Some (DisassembleComment (Op (prog ! i)))], n)"
    by (rule Disassemble_comment_iteration)
next
  assume "\<forall>inst \<in> set (take i prog). jump_slot inst \<longrightarrow> unat (Arg inst) < length prog"
  then have "Disassemble_after prog i \<noteq> None"
    using assms(1) by (auto simp: Disassemble_after_None not_le)
  then obtain d' n' where a: "Disassemble_after prog i = Some (d', n')" by auto
  from Disassemble_comment_iteration [OF assms a] a
  show "\<exists>d' n'. Disassemble_after prog i = Some (d', n') \<and>
               Disassemble_after prog (Suc i) =
                 Some (d'[i := Some (DisassembleComment (Op (prog ! i)))], n')"
    by blast
next
  assume "Disassemble prog = Some out \<and>
    (\<forall>inst \<in> set (drop (Suc i) prog). jump_slot inst \<longrightarrow> unat (Arg inst) \<noteq> i)"
  with assms show "out ! i = Some (DisassembleComment (Op (prog ! i)))"
    by (intro Disassemble_comment_final) blast+
next
  assume b: "(\<forall>inst \<in> set prog. jump_slot inst \<longrightarrow> unat (Arg inst) < length prog) \<and>
    (\<forall>inst \<in> set (drop (Suc i) prog). jump_slot inst \<longrightarrow> unat (Arg inst) \<noteq> i)"
  then have "Disassemble prog \<noteq> None"
    unfolding Disassemble_None by (auto simp: not_le)
  then obtain out' where o: "Disassemble prog = Some out'" by blast
  from Disassemble_comment_final [OF assms o] b
  have "out' ! i = Some (DisassembleComment (Op (prog ! i)))" by blast
  with o show "\<exists>out'. Disassemble prog = Some out' \<and>
               out' ! i = Some (DisassembleComment (Op (prog ! i)))" by blast
qed

theorem Disassemble_comment_slot_witness:
  "0 < length [\<lparr>Comment = 1, Op = 5, Mode = 2, Arg = 9\<rparr>, \<lparr>Comment = 0, Op = 0, Mode = 0, Arg = 0\<rparr>] \<and>
   Comment ([\<lparr>Comment = 1, Op = 5, Mode = 2, Arg = 9\<rparr>, \<lparr>Comment = 0, Op = 0, Mode = 0, Arg = 0\<rparr>] ! 0) \<noteq> 0 \<and>
   Disassemble_after [\<lparr>Comment = 1, Op = 5, Mode = 2, Arg = 9\<rparr>, \<lparr>Comment = 0, Op = 0, Mode = 0, Arg = 0\<rparr>] 0 =
     Some ([None, None], 1) \<and>
   Disassemble_after [\<lparr>Comment = 1, Op = 5, Mode = 2, Arg = 9\<rparr>, \<lparr>Comment = 0, Op = 0, Mode = 0, Arg = 0\<rparr>] (Suc 0) =
     Some ([Some (DisassembleComment 5), None], 1) \<and>
   Disassemble [\<lparr>Comment = 1, Op = 5, Mode = 2, Arg = 9\<rparr>, \<lparr>Comment = 0, Op = 0, Mode = 0, Arg = 0\<rparr>] =
     Some [Some (DisassembleComment 5), Some (DisassembleInstruction 1 0)] \<and>
   [Some (DisassembleComment 5), Some (DisassembleInstruction 1 0)] ! 0 = Some (DisassembleComment 5)"
proof -
  let ?P = "[\<lparr>Comment = 1, Op = 5, Mode = 2, Arg = 9\<rparr>, \<lparr>Comment = 0, Op = 0, Mode = 0, Arg = 0 :: uint32\<rparr>]"
  let ?O = "[Some (DisassembleComment 5), Some (DisassembleInstruction 1 0)]"
  have h1: "0 < length ?P" and h2: "Comment (?P ! 0) \<noteq> 0" by simp_all
  have a0: "Disassemble_after ?P 0 = Some ([None, None], 1)"
    by (simp add: Disassemble_after_def Disassemble_init_def)
  have ev: "Disassemble ?P = Some ?O"
    by (simp add: Disassemble_eval)
  have later: "\<forall>inst \<in> set (drop (Suc 0) ?P). jump_slot inst \<longrightarrow> unat (Arg inst) \<noteq> 0"
    by (simp add: jump_slot_def InstructionsWithLabel_Member_def InstructionsWithLabel_def op_defs)
  note t = Disassemble_comment_slot [OF h1 h2, of "[None, None]" 1 ?O]
  from t a0 have a1: "Disassemble_after ?P (Suc 0) = Some ([None, None][0 := Some (DisassembleComment (Op (?P ! 0)))], 1)"
    by blast
  from t ev later have o: "?O ! 0 = Some (DisassembleComment (Op (?P ! 0)))"
    by blast
  from a1 have a1': "Disassemble_after ?P (Suc 0) = Some ([Some (DisassembleComment 5), None], 1)"
    by simp
  from o have o': "?O ! 0 = Some (DisassembleComment 5)" by simp
  from h1 h2 a0 a1' ev o' show ?thesis by blast
qed

text \<open>
  A jump in a later slot whose argument is the comment slot stores its jump target over
  the \<open>Comment\<close> entry; and a jump before the comment slot whose argument is out of range
  stops \<open>Disassemble\<close> before it reaches the slot.
\<close>

theorem Disassemble_comment_slot_counterexample:
  "Comment \<lparr>Comment = 1, Op = 5, Mode = 0, Arg = 0\<rparr> \<noteq> 0 \<and>
   Disassemble [\<lparr>Comment = 1, Op = 5, Mode = 0, Arg = 0\<rparr>, \<lparr>Comment = 0, Op = 8, Mode = 0, Arg = 0\<rparr>] =
     Some [Some (DisassembleJumpTarget [] 1), Some (DisassembleJumpInstruction 1 8 [] 0)] \<and>
   Disassemble [\<lparr>Comment = 0, Op = 8, Mode = 0, Arg = 7\<rparr>, \<lparr>Comment = 1, Op = 5, Mode = 0, Arg = 0\<rparr>] = None"
  by (simp add: Disassemble_eval)

lemma instruction_slot_counting: "instruction_slot inst \<Longrightarrow> counting_slot inst"
  by (auto simp: instruction_slot_def counting_slot_def InstrunctionMnemonics_Member_def
      InstrunctionMnemonics_def op_defs split: if_splits)

lemma jump_slot_counting: "jump_slot inst \<Longrightarrow> counting_slot inst"
  by (auto simp: jump_slot_def counting_slot_def InstructionsWithLabel_Member_def
      InstructionsWithLabel_def op_defs)

lemma Disassemble_step_lines:
  assumes "k < length d"
    and "counting_slot inst \<longrightarrow> instruction_slot inst"
    and "jump_slot inst \<longrightarrow> unat (Arg inst) < length d \<and> unat (Arg inst) \<noteq> k"
  shows "\<exists>d'. Disassemble_step labels k inst (d, n) =
                 Some (d', if counting_slot inst then n + 1 else n) \<and>
              length d' = length d \<and>
              Line_of (d' ! k) =
                (if counting_slot inst then Some n
                 else if Comment inst \<noteq> 0 then None else Line_of (d ! k)) \<and>
              (\<forall>j. j \<noteq> k \<longrightarrow> j < length d \<longrightarrow> Line_of (d' ! j) =
                 (if jump_slot inst \<and> j = unat (Arg inst) then None else Line_of (d ! j)))"
proof (cases "Comment inst \<noteq> 0")
  case True
  then show ?thesis
    using assms(1) by (simp add: Disassemble_step_comment counting_slot_def jump_slot_def)
next
  case c0: False
  show ?thesis
  proof (cases "Op inst = OP_JUMP_TGT")
    case True
    then have "\<not> jump_slot inst"
      by (auto simp: jump_slot_def InstructionsWithLabel_Member_def InstructionsWithLabel_def op_defs)
    with True c0 show ?thesis
      by (simp add: Disassemble_step_def counting_slot_def)
  next
    case False
    with c0 have cnt: "counting_slot inst" by (simp add: counting_slot_def)
    with assms(2) have mem: "InstrunctionMnemonics_Member (Op inst)"
      by (simp add: instruction_slot_def)
    show ?thesis
    proof (cases "InstructionsWithLabel_Member (Op inst)")
      case True
      with c0 have j: "jump_slot inst" by (simp add: jump_slot_def)
      with assms(3) have a: "unat (Arg inst) < length d" "unat (Arg inst) \<noteq> k" by simp_all
      from c0 False True a assms(1) cnt j show ?thesis
        by (simp add: Disassemble_step_def Let_def store_def nth_list_update)
    next
      case nl: False
      with c0 have nj: "\<not> jump_slot inst" by (simp add: jump_slot_def)
      show ?thesis
      proof (cases "InstructionsWithArg_Member (Op inst)")
        case True
        with c0 False nl assms(1) cnt nj show ?thesis
          by (simp add: Disassemble_step_def Let_def store_def nth_list_update)
      next
        case na: False
        with c0 False nl mem assms(1) cnt nj show ?thesis
          by (simp add: Disassemble_step_def Let_def store_def nth_list_update)
      qed
    qed
  qed
qed

lemma map_filter_cong_set:
  "(\<And>x. x \<in> set xs \<Longrightarrow> f x = g x) \<Longrightarrow> List.map_filter f xs = List.map_filter g xs"
proof (induction xs)
  case Nil
  show ?case by (simp add: map_filter_simps)
next
  case (Cons a xs)
  have "f a = g a" by (rule Cons.prems) simp
  moreover have "List.map_filter f xs = List.map_filter g xs"
    by (rule Cons.IH) (simp add: Cons.prems)
  ultimately show ?case by (simp add: map_filter_simps split: option.splits)
qed

lemma map_filter_app:
  "List.map_filter f (xs @ ys) = List.map_filter f xs @ List.map_filter f ys"
  by (simp add: List.map_filter_def)

lemma lines_of_ranks:
  "List.map_filter
     (\<lambda>j. if P (xs ! j) then Some (c + int (length (filter P (take j xs)))) else None)
     [0..<length xs] =
   map (\<lambda>m. c + int m) [0..<length (filter P xs)]"
proof (induction xs rule: rev_induct)
  case Nil
  show ?case by (simp add: map_filter_simps)
next
  case (snoc x xs)
  have "List.map_filter
          (\<lambda>j. if P ((xs @ [x]) ! j)
                then Some (c + int (length (filter P (take j (xs @ [x]))))) else None)
          [0..<length xs] =
        List.map_filter
          (\<lambda>j. if P (xs ! j) then Some (c + int (length (filter P (take j xs)))) else None)
          [0..<length xs]"
    by (rule map_filter_cong_set) (simp add: nth_append)
  with snoc show ?case
    by (simp add: map_filter_app map_filter_simps)
qed

lemma map_int_upt: "map (\<lambda>m. 1 + int m) [0..<k] = map int [1..<Suc k]"
  by (induction k) simp_all

lemma Disassemble_after_lines:
  assumes wf: "well_formed prog" and "k \<le> length prog"
  shows "\<exists>d. Disassemble_after prog k =
               Some (d, 1 + int (length (filter counting_slot (take k prog)))) \<and>
             length d = length prog \<and>
             (\<forall>j<length prog. Line_of (d ! j) =
                (if j < k \<and> counting_slot (prog ! j)
                 then Some (1 + int (length (filter counting_slot (take j prog)))) else None))"
  using assms(2)
proof (induction k)
  case 0
  show ?case
    by (simp add: Disassemble_after_def Disassemble_init_def)
next
  case (Suc k)
  then have k: "k < length prog" by simp
  define inst where "inst = prog ! k"
  define n where "n = 1 + int (length (filter counting_slot (take k prog)))"
  from Suc obtain d where
    after: "Disassemble_after prog k = Some (d, n)" and
    len: "length d = length prog" and
    lines: "\<forall>j<length prog. Line_of (d ! j) =
                (if j < k \<and> counting_slot (prog ! j)
                 then Some (1 + int (length (filter counting_slot (take j prog)))) else None)"
    unfolding n_def by auto
  have mem: "inst \<in> set prog" using k by (simp add: inst_def)
  have c2i: "counting_slot inst \<longrightarrow> instruction_slot inst"
    using wf mem by (simp add: well_formed_def)
  have tgt: "jump_slot inst \<longrightarrow> unat (Arg inst) < length prog \<and> \<not> counting_slot (prog ! unat (Arg inst))"
    using wf mem by (simp add: well_formed_def)
  have "jump_slot inst \<longrightarrow> unat (Arg inst) \<noteq> k"
  proof
    assume j: "jump_slot inst"
    then have "counting_slot (prog ! k)" unfolding inst_def by (rule jump_slot_counting)
    with tgt j show "unat (Arg inst) \<noteq> k" by auto
  qed
  with tgt have tgt': "jump_slot inst \<longrightarrow> unat (Arg inst) < length d \<and> unat (Arg inst) \<noteq> k"
    using len by simp
  have kd: "k < length d" using k len by simp
  from Disassemble_step_lines [OF kd c2i tgt', of "MakeLabels prog" n] obtain d' where
    step: "Disassemble_step (MakeLabels prog) k inst (d, n) =
             Some (d', if counting_slot inst then n + 1 else n)" and
    len': "length d' = length d" and
    atk: "Line_of (d' ! k) =
            (if counting_slot inst then Some n
             else if Comment inst \<noteq> 0 then None else Line_of (d ! k))" and
    others: "\<forall>j. j \<noteq> k \<longrightarrow> j < length d \<longrightarrow> Line_of (d' ! j) =
               (if jump_slot inst \<and> j = unat (Arg inst) then None else Line_of (d ! j))"
    by blast
  have tk: "take (Suc k) prog = take k prog @ [inst]"
    unfolding inst_def using k by (rule take_Suc_conv_app_nth)
  have n': "(if counting_slot inst then n + 1 else n) =
              1 + int (length (filter counting_slot (take (Suc k) prog)))"
    unfolding tk n_def by simp
  have after': "Disassemble_after prog (Suc k) =
      Some (d', 1 + int (length (filter counting_slot (take (Suc k) prog))))"
    using after step n' k by (simp add: Disassemble_after_Suc inst_def)
  have dk: "Line_of (d ! k) = None" using lines k by simp
  have "\<forall>j<length prog. Line_of (d' ! j) =
          (if j < Suc k \<and> counting_slot (prog ! j)
           then Some (1 + int (length (filter counting_slot (take j prog)))) else None)"
  proof (intro allI impI)
    fix j assume j: "j < length prog"
    show "Line_of (d' ! j) =
          (if j < Suc k \<and> counting_slot (prog ! j)
           then Some (1 + int (length (filter counting_slot (take j prog)))) else None)"
    proof (cases "j = k")
      case True
      with atk dk show ?thesis by (simp add: inst_def n_def)
    next
      case False
      then have lt: "j < Suc k \<longleftrightarrow> j < k" by auto
      from others False j len have
        o: "Line_of (d' ! j) =
              (if jump_slot inst \<and> j = unat (Arg inst) then None else Line_of (d ! j))"
        by simp
      show ?thesis
      proof (cases "jump_slot inst \<and> j = unat (Arg inst)")
        case True
        with tgt have "\<not> counting_slot (prog ! j)" by simp
        with o True show ?thesis by simp
      next
        case False
        with o lines j lt show ?thesis by simp
      qed
    qed
  qed
  with after' len len' show ?case by auto
qed

lemma map_filter_of_map:
  "List.map_filter f xs = List.map_filter id (map f xs)"
  by (induction xs) (simp_all split: option.splits)

lemma well_formed_filter:
  assumes "well_formed prog"
  shows "filter counting_slot prog = filter instruction_slot prog"
  using assms
  by (intro filter_cong) (auto simp: well_formed_def dest: instruction_slot_counting)

text \<open>
  Claim C4, as amended. For every well-formed instruction sequence (every slot that is
  neither a comment nor a jump target holds one of the eleven mnemonics, and every jump has
  as its argument the index of a comment or jump-target slot of the sequence),
  \<open>Disassemble\<close> returns and the line numbers of the instruction entries of its output,
  read in output order, are \<open>1, 2, \<dots>, k\<close> with \<open>k\<close> the number of instruction slots; an
  entry \<open>Comment\<close> or \<open>JumpTarget\<close> carries no line number.
\<close>

theorem Disassemble_line_numbers:
  assumes "well_formed prog"
  shows "\<exists>out. Disassemble prog = Some out \<and>
           line_numbers out = map int [1..<Suc (length (filter instruction_slot prog))]"
proof -
  from Disassemble_after_lines [OF assms, of "length prog"] obtain out n where
    after: "Disassemble_after prog (length prog) = Some (out, n)" and
    len: "length out = length prog" and
    lines: "\<forall>j<length prog. Line_of (out ! j) =
              (if counting_slot (prog ! j)
               then Some (1 + int (length (filter counting_slot (take j prog)))) else None)"
    by auto
  have out: "Disassemble prog = Some out"
    using after by (simp add: Disassemble_after_all)
  have "map Line_of out =
        map (\<lambda>j. if counting_slot (prog ! j)
                 then Some (1 + int (length (filter counting_slot (take j prog)))) else None)
            [0..<length prog]"
    using len lines by (intro nth_equalityI) simp_all
  then have "line_numbers out =
        List.map_filter (\<lambda>j. if counting_slot (prog ! j)
                 then Some (1 + int (length (filter counting_slot (take j prog)))) else None)
            [0..<length prog]"
    unfolding line_numbers_def
    by (subst map_filter_of_map, subst (2) map_filter_of_map) simp
  also have "\<dots> = map (\<lambda>m. 1 + int m) [0..<length (filter counting_slot prog)]"
    by (rule lines_of_ranks)
  also have "\<dots> = map int [1..<Suc (length (filter instruction_slot prog))]"
    unfolding well_formed_filter [OF assms] by (rule map_int_upt)
  finally show ?thesis using out by blast
qed

theorem Disassemble_line_numbers_witness:
  "Disassemble [\<lparr>Comment = 0, Op = 8, Mode = 0, Arg = 2\<rparr>, \<lparr>Comment = 0, Op = 1, Mode = 0, Arg = 0\<rparr>,
      \<lparr>Comment = 0, Op = 13, Mode = 0, Arg = 0\<rparr>] =
     Some [Some (DisassembleJumpInstruction 1 8 ''a'' 2), Some (DisassembleInstruction 2 1),
           Some (DisassembleJumpTarget ''a'' 0)] \<and>
   line_numbers [Some (DisassembleJumpInstruction 1 8 ''a'' 2), Some (DisassembleInstruction 2 1),
           Some (DisassembleJumpTarget ''a'' 0)] = [1, 2]"
proof -
  let ?P = "[\<lparr>Comment = 0, Op = 8, Mode = 0, Arg = 2\<rparr>, \<lparr>Comment = 0, Op = 1, Mode = 0, Arg = 0\<rparr>,
      \<lparr>Comment = 0, Op = 13, Mode = 0, Arg = 0 :: uint32\<rparr>]"
  have wf: "well_formed ?P"
    by (simp add: well_formed_def counting_slot_def instruction_slot_def jump_slot_def
        InstructionsWithLabel_Member_def InstructionsWithLabel_def
        InstrunctionMnemonics_Member_def InstrunctionMnemonics_def op_defs)
  have ev: "Disassemble ?P =
     Some [Some (DisassembleJumpInstruction 1 8 ''a'' 2), Some (DisassembleInstruction 2 1),
           Some (DisassembleJumpTarget ''a'' 0)]"
    by (simp add: Disassemble_eval)
  have ln: "line_numbers [Some (DisassembleJumpInstruction 1 8 ''a'' 2), Some (DisassembleInstruction 2 1),
           Some (DisassembleJumpTarget ''a'' 0)] = [1, 2]"
    by (simp add: line_numbers_def)
  from Disassemble_line_numbers [OF wf] ev ln show ?thesis by blast
qed

text \<open>
  A jump whose argument is its own slot stores its jump target over its own entry: the
  only line number left in the output is 2.
\<close>

theorem Disassemble_line_numbers_counterexample:
  "Disassemble [\<lparr>Comment = 0, Op = 8, Mode = 0, Arg = 0\<rparr>, \<lparr>Comment = 0, Op = 0, Mode = 0, Arg = 0\<rparr>] =
     Some [Some (DisassembleJumpTarget [] 0), Some (DisassembleInstruction 2 0)] \<and>
   line_numbers [Some (DisassembleJumpTarget [] 0), Some (DisassembleInstruction 2 0)] = [2]"
  by (simp add: Disassemble_eval line_numbers_def)

end
